theory Spec2Isabelle
  imports Main "HOL-Library.Sublist"
begin

section \<open>JavaScript strings\<close>

text \<open>
  A JavaScript string is a sequence of UTF-16 code units. The model uses \<open>string\<close>
  (a list of \<open>char\<close>), one \<open>char\<close> per code unit below 256; every marker, tag and
  pattern of the sources is ASCII. The functions below are the string methods the sources
  call, with the corner cases of the language written out.
\<close>

abbreviation NL :: char where "NL \<equiv> CHR 0x0A"

text \<open>\<open>isWhiteSpace\<close>: the code units that \<open>String.prototype.trim\<close> and the regular
  expression class \<open>\s\<close> treat as white space (tab, line feed, vertical tab, form feed,
  carriage return, space, no-break space).\<close>

definition isWhiteSpace :: "char \<Rightarrow> bool" where
  "isWhiteSpace c = (c = CHR 0x09 \<or> c = CHR 0x0A \<or> c = CHR 0x0B \<or> c = CHR 0x0C
     \<or> c = CHR 0x0D \<or> c = CHR 0x20 \<or> c = CHR 0xA0)"

definition trim :: "string \<Rightarrow> string" where
  "trim s = rev (dropWhile isWhiteSpace (rev (dropWhile isWhiteSpace s)))"

text \<open>\<open>indexOfAux pat s i\<close> searches \<open>pat\<close> in \<open>s\<close>, where \<open>s\<close> starts at offset
  \<open>i\<close> of the whole string. \<open>indexOf s pat pos\<close> is \<open>s.indexOf(pat, pos)\<close>, with
  \<open>None\<close> for \<open>-1\<close>.\<close>

fun indexOfAux :: "string \<Rightarrow> string \<Rightarrow> nat \<Rightarrow> nat option" where
  "indexOfAux pat [] i = (if pat = [] then Some i else None)"
| "indexOfAux pat (c # s) i =
     (if prefix pat (c # s) then Some i else indexOfAux pat s (Suc i))"

definition indexOf :: "string \<Rightarrow> string \<Rightarrow> nat \<Rightarrow> nat option" where
  "indexOf s pat pos = indexOfAux pat (drop pos s) (min pos (length s))"

text \<open>\<open>s.substring(a, b)\<close>: the arguments are clamped to the length and swapped when
  \<open>a > b\<close>.\<close>

definition substring :: "string \<Rightarrow> nat \<Rightarrow> nat \<Rightarrow> string" where
  "substring s a b = take (max a b - min a b) (drop (min a b) s)"

text \<open>\<open>s.slice(a)\<close> for a non-negative \<open>a\<close>.\<close>

definition sliceFrom :: "string \<Rightarrow> nat \<Rightarrow> string" where
  "sliceFrom s a = drop a s"

text \<open>\<open>s.split(sep)\<close> for a one-character separator: always at least one piece.\<close>

fun splitOn :: "char \<Rightarrow> string \<Rightarrow> string list" where
  "splitOn sep [] = [[]]"
| "splitOn sep (c # s) =
     (if c = sep then [] # splitOn sep s
      else (case splitOn sep s of [] \<Rightarrow> [[c]] | p # ps \<Rightarrow> (c # p) # ps))"

text \<open>
  \<open>getSubstitution\<close> expands the replacement template of \<open>String.prototype.replace\<close>
  when the pattern is a string (no capture groups): \<open>$$\<close> is a dollar sign, \<open>$&\<close> the
  matched text, \<open>$`\<close> the text \<open>pre\<close> before the match, \<open>$'\<close> the text \<open>post\<close> after it; every other
  character, and a dollar sign followed by anything else, stands for itself.
\<close>

fun getSubstitution :: "string \<Rightarrow> string \<Rightarrow> string \<Rightarrow> string \<Rightarrow> string" where
  "getSubstitution matched pre post [] = []"
| "getSubstitution matched pre post [c] = [c]"
| "getSubstitution matched pre post (c # d # t) =
     (if c = CHR ''$'' \<and> d = CHR ''$'' then CHR ''$'' # getSubstitution matched pre post t
      else if c = CHR ''$'' \<and> d = CHR ''&'' then matched @ getSubstitution matched pre post t
      else if c = CHR ''$'' \<and> d = CHR 0x60 then pre @ getSubstitution matched pre post t
      else if c = CHR ''$'' \<and> d = CHR 0x27 then post @ getSubstitution matched pre post t
      else c # getSubstitution matched pre post (d # t))"

text \<open>\<open>s.replace(pat, repl)\<close> with a string pattern: only the first occurrence is
  replaced, by the expanded template.\<close>

definition replace :: "string \<Rightarrow> string \<Rightarrow> string \<Rightarrow> string" where
  "replace s pat repl =
     (case indexOf s pat 0 of
        None \<Rightarrow> s
      | Some i \<Rightarrow>
          take i s
          @ getSubstitution pat (take i s) (drop (i + length pat) s) repl
          @ drop (i + length pat) s)"

section \<open>Patch engine (\<open>src/lib/diff-patch.ts\<close>, \<open>src/lib/diff-constants.ts\<close>)\<close>

definition SEARCH_START :: string where "SEARCH_START = ''<<<<<<< SEARCH''"
definition DIVIDER :: string where "DIVIDER = ''=======''"
definition REPLACE_END :: string where "REPLACE_END = ''>>>>>>> REPLACE''"

record DiffResult =
  modifiedContent :: string
  updatedLines :: "nat list list"
  hasChanges :: bool

text \<open>
  \<open>applyBlock\<close> is the body of the \<open>while\<close> loop of \<open>applyDiffPatches\<close> after the three
  markers were found: the two branches on the trimmed search block, acting on the three
  local variables \<open>modifiedContent\<close>, \<open>updatedLines\<close> and \<open>hasChanges\<close>.
\<close>

definition applyBlock :: "string \<Rightarrow> string \<Rightarrow> DiffResult \<Rightarrow> DiffResult" where
  "applyBlock searchBlock replaceBlock r =
     (if searchBlock = [] then
        \<lparr> modifiedContent = replaceBlock @ [NL] @ modifiedContent r,
          updatedLines = updatedLines r @ [[1, length (splitOn NL replaceBlock)]],
          hasChanges = True \<rparr>
      else
        (case indexOf (modifiedContent r) searchBlock 0 of
           None \<Rightarrow> r
         | Some blockPosition \<Rightarrow>
             (let beforeText = substring (modifiedContent r) 0 blockPosition;
                  startLineNumber = length (splitOn NL beforeText);
                  replaceLines = length (splitOn NL replaceBlock);
                  endLineNumber = startLineNumber + replaceLines - 1
              in \<lparr> modifiedContent = replace (modifiedContent r) searchBlock replaceBlock,
                   updatedLines = updatedLines r @ [[startLineNumber, endLineNumber]],
                   hasChanges = True \<rparr>)))"

lemma indexOfAux_bounds:
  "indexOfAux pat s i = Some k \<Longrightarrow> i \<le> k \<and> k + length pat \<le> i + length s"
proof (induction s arbitrary: i)
  case Nil
  then show ?case by (simp split: if_splits)
next
  case (Cons c s)
  show ?case
  proof (cases "prefix pat (c # s)")
    case True
    with Cons.prems have "k = i" by simp
    moreover from True have "length pat \<le> length (c # s)" by (rule prefix_length_le)
    ultimately show ?thesis by simp
  next
    case False
    with Cons.prems have "indexOfAux pat s (Suc i) = Some k" by simp
    from Cons.IH [OF this] show ?thesis by simp
  qed
qed

lemma indexOf_bounds:
  assumes "indexOf s pat pos = Some k" and "pat \<noteq> []"
  shows "pos \<le> k \<and> k + length pat \<le> length s"
proof -
  from assms(1) have a: "indexOfAux pat (drop pos s) (min pos (length s)) = Some k"
    by (simp add: indexOf_def)
  from indexOfAux_bounds [OF a]
  have b: "min pos (length s) \<le> k" "k + length pat \<le> min pos (length s) + length (drop pos s)"
    by simp_all
  from assms(2) have "0 < length pat" by simp
  with b show ?thesis by (cases "pos \<le> length s") (simp_all add: min_def split: if_splits)
qed

text \<open>
  \<open>applyLoop\<close> is the \<open>while (moreBlocks)\<close> loop: \<open>position\<close> and the three result
  variables are its state; each \<open>moreBlocks = false; continue\<close> leaves the loop with the
  state as it is.
\<close>

function applyLoop :: "string \<Rightarrow> nat \<Rightarrow> DiffResult \<Rightarrow> DiffResult" where
  "applyLoop diffContent position r =
     (case indexOf diffContent SEARCH_START position of
        None \<Rightarrow> r
      | Some searchStartIndex \<Rightarrow>
          (case indexOf diffContent DIVIDER searchStartIndex of
             None \<Rightarrow> r
           | Some dividerIndex \<Rightarrow>
               (case indexOf diffContent REPLACE_END dividerIndex of
                  None \<Rightarrow> r
                | Some replaceEndIndex \<Rightarrow>
                    applyLoop diffContent (replaceEndIndex + length REPLACE_END)
                      (applyBlock
                         (trim (substring diffContent
                                  (searchStartIndex + length SEARCH_START) dividerIndex))
                         (trim (substring diffContent
                                  (dividerIndex + length DIVIDER) replaceEndIndex))
                         r))))"
  by pat_completeness auto
termination
proof (relation "measure (\<lambda>(d, p, r). length d - p)", goal_cases)
  case 1
  show ?case by simp
next
  case (2 d p r i j k)
  from indexOf_bounds [OF 2(1)] have a: "p \<le> i" by (simp add: SEARCH_START_def)
  from indexOf_bounds [OF 2(2)] have b: "i \<le> j" by (simp add: DIVIDER_def)
  from indexOf_bounds [OF 2(3)] have c: "j \<le> k" "k + length REPLACE_END \<le> length d"
    by (simp_all add: REPLACE_END_def)
  have "length REPLACE_END = 15" by (simp add: REPLACE_END_def)
  with a b c show ?case by simp
qed

declare applyLoop.simps [simp del]

definition applyDiffPatches :: "string \<Rightarrow> string \<Rightarrow> DiffResult" where
  "applyDiffPatches originalContent diffContent =
     applyLoop diffContent 0
       \<lparr> modifiedContent = originalContent, updatedLines = [], hasChanges = False \<rparr>"

subsection \<open>The patch text as a list of blocks\<close>

text \<open>
  The specification describes the patch text as a sequence of well-formed triplets, each a
  PatchBlock \<open>(searchText, replaceText)\<close>, applied left to right. \<open>nextTriplet\<close> and
  \<open>triplets\<close> follow these words: the next triplet at or after a position, and all of them
  up to the first marker sequence that is incomplete. \<open>applyLoop_foldl\<close> shows that the
  loop of the source does exactly this.
\<close>

definition nextTriplet :: "string \<Rightarrow> nat \<Rightarrow> (string \<times> string \<times> nat) option" where
  "nextTriplet d pos =
     (case indexOf d SEARCH_START pos of
        None \<Rightarrow> None
      | Some i \<Rightarrow>
          (case indexOf d DIVIDER i of
             None \<Rightarrow> None
           | Some j \<Rightarrow>
               (case indexOf d REPLACE_END j of
                  None \<Rightarrow> None
                | Some k \<Rightarrow>
                    Some (trim (substring d (i + length SEARCH_START) j),
                          trim (substring d (j + length DIVIDER) k),
                          k + length REPLACE_END))))"

lemma nextTriplet_bounds:
  assumes "nextTriplet d pos = Some (sb, rb, pos')"
  shows "pos < pos' \<and> pos' \<le> length d"
proof -
  from assms obtain i j k where
    i: "indexOf d SEARCH_START pos = Some i" and
    j: "indexOf d DIVIDER i = Some j" and
    k: "indexOf d REPLACE_END j = Some k" and
    p: "pos' = k + length REPLACE_END"
    by (auto simp: nextTriplet_def split: option.splits)
  from indexOf_bounds [OF i] have a: "pos \<le> i" by (simp add: SEARCH_START_def)
  from indexOf_bounds [OF j] have b: "i \<le> j" by (simp add: DIVIDER_def)
  from indexOf_bounds [OF k] have c: "j \<le> k" "k + length REPLACE_END \<le> length d"
    by (simp_all add: REPLACE_END_def)
  have "length REPLACE_END = 15" by (simp add: REPLACE_END_def)
  with a b c p show ?thesis by simp
qed

function triplets :: "string \<Rightarrow> nat \<Rightarrow> (string \<times> string) list" where
  "triplets d pos =
     (case nextTriplet d pos of
        None \<Rightarrow> []
      | Some (sb, rb, pos') \<Rightarrow> (sb, rb) # triplets d pos')"
  by pat_completeness auto
termination
  by (relation "measure (\<lambda>(d, p). length d - p)") (auto dest: nextTriplet_bounds)

declare triplets.simps [simp del]

text \<open>A block is applied when its search block is empty (insertion at the top) or occurs
  in the current content; \<open>appliedBlocks\<close> lists the blocks that are applied, each against
  the content the earlier ones left.\<close>

definition blockApplies :: "string \<Rightarrow> string \<Rightarrow> bool" where
  "blockApplies content sb = (sb = [] \<or> indexOf content sb 0 \<noteq> None)"

definition patched :: "string \<Rightarrow> string \<Rightarrow> string \<Rightarrow> string" where
  "patched content sb rb =
     modifiedContent (applyBlock sb rb
       \<lparr> modifiedContent = content, updatedLines = [], hasChanges = False \<rparr>)"

fun appliedBlocks :: "string \<Rightarrow> (string \<times> string) list \<Rightarrow> (string \<times> string) list" where
  "appliedBlocks content [] = []"
| "appliedBlocks content ((sb, rb) # bs) =
     (if blockApplies content sb then (sb, rb) # appliedBlocks (patched content sb rb) bs
      else appliedBlocks content bs)"

lemma applyLoop_nextTriplet:
  "applyLoop d pos r =
     (case nextTriplet d pos of
        None \<Rightarrow> r
      | Some (sb, rb, pos') \<Rightarrow> applyLoop d pos' (applyBlock sb rb r))"
  by (subst applyLoop.simps) (simp add: nextTriplet_def split: option.splits)

lemma applyLoop_foldl:
  "applyLoop d pos r = foldl (\<lambda>r (sb, rb). applyBlock sb rb r) r (triplets d pos)"
proof (induction d pos arbitrary: r rule: triplets.induct)
  case (1 d pos)
  show ?case
  proof (cases "nextTriplet d pos")
    case None
    then show ?thesis
      by (subst applyLoop_nextTriplet, subst triplets.simps) simp
  next
    case (Some t)
    obtain sb rb pos' where t: "t = (sb, rb, pos')" by (cases t) auto
    from "1.IH" [OF Some [unfolded t] refl refl, of "applyBlock sb rb r"] Some t
    show ?thesis
      by (subst applyLoop_nextTriplet, subst triplets.simps) simp
  qed
qed

lemma applyBlock_content:
  "modifiedContent (applyBlock sb rb r) = patched (modifiedContent r) sb rb"
  by (simp add: applyBlock_def patched_def Let_def split: option.splits)

lemma applyBlock_hasChanges:
  "hasChanges (applyBlock sb rb r) = (hasChanges r \<or> blockApplies (modifiedContent r) sb)"
  by (auto simp add: applyBlock_def blockApplies_def Let_def split: option.splits)

lemma applyBlock_not_applies:
  "\<not> blockApplies (modifiedContent r) sb \<Longrightarrow> applyBlock sb rb r = r"
  by (auto simp add: applyBlock_def blockApplies_def)

lemma patched_not_applies: "\<not> blockApplies content sb \<Longrightarrow> patched content sb rb = content"
  by (simp add: patched_def applyBlock_not_applies)

lemma foldl_hasChanges:
  "hasChanges (foldl (\<lambda>r (sb, rb). applyBlock sb rb r) r bs)
     = (hasChanges r \<or> appliedBlocks (modifiedContent r) bs \<noteq> [])"
proof (induction bs arbitrary: r)
  case Nil
  show ?case by simp
next
  case (Cons b bs)
  obtain sb rb where b: "b = (sb, rb)" by (cases b)
  show ?case
    unfolding b
    by (simp add: Cons.IH applyBlock_content applyBlock_hasChanges patched_not_applies)
qed


text \<open>
  C4. A well-formed triplet whose non-empty search text does not occur in the current
  content is skipped: the loop goes on behind its end marker with the state unchanged (the
  function is total, it has no error result). The returned \<open>hasChanges\<close> is true if and only
  if at least one block of the patch text was applied.
\<close>

theorem applyDiffPatches_not_found_skipped:
  "(\<forall>sb rb pos'. nextTriplet d pos = Some (sb, rb, pos') \<and> sb \<noteq> []
        \<and> indexOf (modifiedContent r) sb 0 = None
      \<longrightarrow> applyLoop d pos r = applyLoop d pos' r)
   \<and> hasChanges (applyDiffPatches original d) = (appliedBlocks original (triplets d 0) \<noteq> [])"
proof (intro conjI allI impI)
  fix sb rb pos'
  assume a: "nextTriplet d pos = Some (sb, rb, pos') \<and> sb \<noteq> []
        \<and> indexOf (modifiedContent r) sb 0 = None"
  then have "\<not> blockApplies (modifiedContent r) sb" by (simp add: blockApplies_def)
  then have "applyBlock sb rb r = r" by (rule applyBlock_not_applies)
  with a show "applyLoop d pos r = applyLoop d pos' r"
    by (simp add: applyLoop_nextTriplet [of d pos r])
next
  show "hasChanges (applyDiffPatches original d) = (appliedBlocks original (triplets d 0) \<noteq> [])"
    by (simp add: applyDiffPatches_def applyLoop_foldl foldl_hasChanges)
qed

abbreviation (input) twoBlocks :: string where
  "twoBlocks \<equiv> ''<<<<<<< SEARCH'' @ [NL] @ ''zzz'' @ [NL] @ ''======='' @ [NL] @ ''q'' @ [NL]
     @ ''>>>>>>> REPLACE'' @ [NL] @ ''<<<<<<< SEARCH'' @ [NL] @ ''foo'' @ [NL] @ ''======='' @ [NL]
     @ ''bar'' @ [NL] @ ''>>>>>>> REPLACE''"

theorem applyDiffPatches_not_found_skipped_witness:
  "nextTriplet twoBlocks 0 = Some (''zzz'', ''q'', 44) \<and> ''zzz'' \<noteq> []
   \<and> indexOf ''foo'' ''zzz'' 0 = None
   \<and> applyLoop twoBlocks 0
         \<lparr> modifiedContent = ''foo'', updatedLines = [], hasChanges = False \<rparr>
       = applyLoop twoBlocks 44
         \<lparr> modifiedContent = ''foo'', updatedLines = [], hasChanges = False \<rparr>
   \<and> hasChanges (applyDiffPatches ''foo'' twoBlocks)
   \<and> appliedBlocks ''foo'' (triplets twoBlocks 0) = [(''foo'', ''bar'')]"
proof -
  have a: "nextTriplet twoBlocks 0 = Some (''zzz'', ''q'', 44)" by code_simp
  have b: "indexOf ''foo'' ''zzz'' 0 = None" by code_simp
  have c: "appliedBlocks ''foo'' (triplets twoBlocks 0) = [(''foo'', ''bar'')]" by code_simp
  note t = applyDiffPatches_not_found_skipped
    [of twoBlocks 0 "\<lparr> modifiedContent = ''foo'', updatedLines = [], hasChanges = False \<rparr>" "''foo''"]
  from t a b have d: "applyLoop twoBlocks 0
         \<lparr> modifiedContent = ''foo'', updatedLines = [], hasChanges = False \<rparr>
       = applyLoop twoBlocks 44
         \<lparr> modifiedContent = ''foo'', updatedLines = [], hasChanges = False \<rparr>"
    by simp
  from t c have e: "hasChanges (applyDiffPatches ''foo'' twoBlocks)" by simp
  from a b c d e show ?thesis by simp
qed

text \<open>
  The loop looks for the divider with \<open>indexOf\<close> from the SEARCH marker on, and for the end
  marker from the divider on, in all the rest of the patch text: there is no test that a
  marker found belongs to the same block. So a SEARCH marker is without a divider, for the
  loop, when no divider occurs anywhere behind it, and without an end marker when none
  occurs anywhere behind the divider.
\<close>

text \<open>
  \<open>loopStates\<close> lists the states in which the loop starts an iteration: the position and the
  result variables, first \<open>0\<close> and the original content, then those behind each block that
  was scanned.
\<close>

function loopStates :: "string \<Rightarrow> nat \<Rightarrow> DiffResult \<Rightarrow> (nat \<times> DiffResult) list" where
  "loopStates d pos r =
     (pos, r) # (case nextTriplet d pos of
                   None \<Rightarrow> []
                 | Some (sb, rb, pos') \<Rightarrow> loopStates d pos' (applyBlock sb rb r))"
  by pat_completeness auto
termination
  by (relation "measure (\<lambda>(d, p, r). length d - p)") (auto dest: nextTriplet_bounds)

declare loopStates.simps [simp del]

lemma loopStates_applyLoop:
  "(p, r') \<in> set (loopStates d pos r) \<Longrightarrow> applyLoop d p r' = applyLoop d pos r"
proof (induction d pos r rule: loopStates.induct)
  case (1 d pos r)
  show ?case
  proof (cases "nextTriplet d pos")
    case None
    with "1.prems" have "(p, r') = (pos, r)" by (subst (asm) loopStates.simps) simp
    then show ?thesis by simp
  next
    case (Some t)
    obtain sb rb pos' where t: "t = (sb, rb, pos')" by (cases t) auto
    from "1.prems" Some t
    have "(p, r') = (pos, r) \<or> (p, r') \<in> set (loopStates d pos' (applyBlock sb rb r))"
      by (subst (asm) loopStates.simps) simp
    then show ?thesis
    proof
      assume "(p, r') = (pos, r)"
      then show ?thesis by simp
    next
      assume "(p, r') \<in> set (loopStates d pos' (applyBlock sb rb r))"
      from "1.IH" [OF Some [unfolded t] refl refl this]
      have "applyLoop d p r' = applyLoop d pos' (applyBlock sb rb r)" .
      with Some t show ?thesis by (simp add: applyLoop_nextTriplet [of d pos r])
    qed
  qed
qed

text \<open>
  C5 (as amended). When the loop finds a SEARCH marker behind which the rest of the patch
  text has no divider, or has a divider and behind it no REPLACE end marker, it stops and
  returns the state it has reached: no block is left to scan from there, and when the state
  is one that a call of \<open>applyDiffPatches\<close> reaches, the content, touched ranges and change
  flag of this state, those of all blocks applied before, are the result of the call.
\<close>

theorem applyLoop_malformed_stops:
  assumes "indexOf d SEARCH_START pos = Some i"
    and "indexOf d DIVIDER i = None
         \<or> (\<exists>j. indexOf d DIVIDER i = Some j \<and> indexOf d REPLACE_END j = None)"
  shows "applyLoop d pos r = r \<and> triplets d pos = []
     \<and> ((pos, r) \<in> set (loopStates d 0
             \<lparr> modifiedContent = original, updatedLines = [], hasChanges = False \<rparr>)
          \<longrightarrow> applyDiffPatches original d = r)"
proof -
  from assms have a: "applyLoop d pos r = r"
    by (auto simp add: applyLoop.simps [of d pos r])
  from assms have b: "triplets d pos = []"
    by (auto simp add: triplets.simps [of d pos] nextTriplet_def)
  have "applyDiffPatches original d = r"
    if "(pos, r) \<in> set (loopStates d 0
             \<lparr> modifiedContent = original, updatedLines = [], hasChanges = False \<rparr>)"
    using loopStates_applyLoop [OF that] a by (simp add: applyDiffPatches_def)
  with a b show ?thesis by simp
qed


abbreviation (input) brokenPatch :: string where
  "brokenPatch \<equiv> ''<<<<<<< SEARCH'' @ [NL] @ ''foo'' @ [NL] @ ''======='' @ [NL] @ ''bar'' @ [NL]
     @ ''>>>>>>> REPLACE'' @ [NL] @ ''<<<<<<< SEARCH'' @ [NL] @ ''baz'' @ [NL]"

theorem applyLoop_malformed_stops_witness:
  "indexOf brokenPatch SEARCH_START 46 = Some 47
   \<and> indexOf brokenPatch DIVIDER 47 = None
   \<and> (46, \<lparr> modifiedContent = ''bar'', updatedLines = [[1, 1]], hasChanges = True \<rparr>)
       \<in> set (loopStates brokenPatch 0
               \<lparr> modifiedContent = ''foo'', updatedLines = [], hasChanges = False \<rparr>)
   \<and> applyLoop brokenPatch 46
        \<lparr> modifiedContent = ''bar'', updatedLines = [[1, 1]], hasChanges = True \<rparr>
      = \<lparr> modifiedContent = ''bar'', updatedLines = [[1, 1]], hasChanges = True \<rparr>
   \<and> applyDiffPatches ''foo'' brokenPatch
      = \<lparr> modifiedContent = ''bar'', updatedLines = [[1, 1]], hasChanges = True \<rparr>"
proof -
  have a: "indexOf brokenPatch SEARCH_START 46 = Some 47" by code_simp
  have b: "indexOf brokenPatch DIVIDER 47 = None" by code_simp
  have c: "(46, \<lparr> modifiedContent = ''bar'', updatedLines = [[1, 1]], hasChanges = True \<rparr>)
       \<in> set (loopStates brokenPatch 0
               \<lparr> modifiedContent = ''foo'', updatedLines = [], hasChanges = False \<rparr>)"
    by code_simp
  from a b have "indexOf brokenPatch DIVIDER 47 = None
         \<or> (\<exists>j. indexOf brokenPatch DIVIDER 47 = Some j \<and> indexOf brokenPatch REPLACE_END j = None)"
    by simp
  from applyLoop_malformed_stops [OF a this,
      of "\<lparr> modifiedContent = ''bar'', updatedLines = [[1, 1]], hasChanges = True \<rparr>" "''foo''"]
    a b c
  show ?thesis by simp
qed

text \<open>
  C5 as stated fails: in \<open>gluedPatch\<close> the second SEARCH marker, at 47, has a divider and no
  end marker of its own before the next SEARCH marker, at 76. The loop does not stop there.
  It takes the end marker of the third block, so that the replace block of the second is
  everything from its divider to that end marker, and it applies this block: the text
  \<open>bar\<close>, which the first block had put in, is replaced by a text that holds the markers
  of the third block, and a second range is recorded.
\<close>

abbreviation (input) gluedPatch :: string where
  "gluedPatch \<equiv> ''<<<<<<< SEARCH'' @ [NL] @ ''foo'' @ [NL] @ ''======='' @ [NL] @ ''bar'' @ [NL]
     @ ''>>>>>>> REPLACE'' @ [NL] @ ''<<<<<<< SEARCH'' @ [NL] @ ''bar'' @ [NL] @ ''======='' @ [NL]
     @ ''X'' @ [NL] @ ''<<<<<<< SEARCH'' @ [NL] @ ''q'' @ [NL] @ ''======='' @ [NL] @ ''r'' @ [NL]
     @ ''>>>>>>> REPLACE''"

theorem applyDiffPatches_takes_later_end_marker:
  "indexOf gluedPatch SEARCH_START 46 = Some 47
   \<and> indexOf gluedPatch SEARCH_START 48 = Some 76
   \<and> indexOf (take 76 gluedPatch) REPLACE_END 47 = None
   \<and> applyDiffPatches ''foo'' (take 46 gluedPatch)
      = \<lparr> modifiedContent = ''bar'', updatedLines = [[1, 1]], hasChanges = True \<rparr>
   \<and> applyDiffPatches ''foo'' gluedPatch
      = \<lparr> modifiedContent = ''X'' @ [NL] @ ''<<<<<<< SEARCH'' @ [NL] @ ''q'' @ [NL] @ ''=======''
                             @ [NL] @ ''r'',
          updatedLines = [[1, 1], [1, 5]], hasChanges = True \<rparr>
   \<and> applyDiffPatches ''foo'' gluedPatch \<noteq> applyDiffPatches ''foo'' (take 46 gluedPatch)"
proof -
  have a: "indexOf gluedPatch SEARCH_START 46 = Some 47" by code_simp
  have b: "indexOf gluedPatch SEARCH_START 48 = Some 76" by code_simp
  have c: "indexOf (take 76 gluedPatch) REPLACE_END 47 = None" by code_simp
  have d: "applyDiffPatches ''foo'' (take 46 gluedPatch)
      = \<lparr> modifiedContent = ''bar'', updatedLines = [[1, 1]], hasChanges = True \<rparr>"
    by code_simp
  have e: "applyDiffPatches ''foo'' gluedPatch
      = \<lparr> modifiedContent = ''X'' @ [NL] @ ''<<<<<<< SEARCH'' @ [NL] @ ''q'' @ [NL] @ ''=======''
                             @ [NL] @ ''r'',
          updatedLines = [[1, 1], [1, 5]], hasChanges = True \<rparr>"
    by code_simp
  from a b c d e show ?thesis by simp
qed

subsection \<open>Replacing a block that is found\<close>

lemma getSubstitution_plain:
  "CHR ''$'' \<notin> set repl \<Longrightarrow> getSubstitution matched pre post repl = repl"
  by (induction matched pre post repl rule: getSubstitution.induct) auto

lemma length_splitOn: "length (splitOn sep s) = Suc (count_list s sep)"
  by (induction s) (auto split: list.splits)

lemma indexOfAux_first:
  "indexOfAux pat s i = Some k \<Longrightarrow>
     prefix pat (drop (k - i) s) \<and> (\<forall>m < k - i. \<not> prefix pat (drop m s))"
proof (induction s arbitrary: i)
  case Nil
  then show ?case by (simp split: if_splits)
next
  case (Cons c s)
  show ?case
  proof (cases "prefix pat (c # s)")
    case True
    with Cons.prems show ?thesis by simp
  next
    case False
    with Cons.prems have a: "indexOfAux pat s (Suc i) = Some k" by simp
    from indexOfAux_bounds [OF a] have b: "Suc i \<le> k" by simp
    then have c: "k - i = Suc (k - Suc i)" by simp
    from Cons.IH [OF a] have d: "prefix pat (drop (k - Suc i) s)"
      and e: "\<forall>m < k - Suc i. \<not> prefix pat (drop m s)" by simp_all
    have "\<not> prefix pat (drop m (c # s))" if "m < k - i" for m
    proof (cases m)
      case 0
      with False show ?thesis by simp
    next
      case (Suc m')
      with that c have "m' < k - Suc i" by simp
      with e Suc show ?thesis by simp
    qed
    with d c show ?thesis by simp
  qed
qed

lemma indexOf_first:
  "indexOf s pat 0 = Some k \<Longrightarrow>
     prefix pat (drop k s) \<and> (\<forall>m < k. \<not> prefix pat (drop m s))"
  using indexOfAux_first [of pat s 0 k] by (simp add: indexOf_def)

lemma applyBlock_found:
  assumes "searchBlock \<noteq> []"
    and "indexOf (modifiedContent r) searchBlock 0 = Some p"
    and "CHR ''$'' \<notin> set replaceBlock"
  shows "applyBlock searchBlock replaceBlock r =
     \<lparr> modifiedContent = take p (modifiedContent r) @ replaceBlock
          @ drop (p + length searchBlock) (modifiedContent r),
       updatedLines = updatedLines r
          @ [[Suc (count_list (take p (modifiedContent r)) NL),
              Suc (count_list (take p (modifiedContent r)) NL)
                + Suc (count_list replaceBlock NL) - 1]],
       hasChanges = True \<rparr>"
  using assms
  by (simp add: applyBlock_def replace_def substring_def getSubstitution_plain length_splitOn Let_def)

text \<open>
  \<open>applyBlock_found\<close>: for a replace block without a dollar sign the first occurrence of
  the search block is replaced by the replace block as it is, and the touched range is
  \<open>[startLine, startLine + replaceLineCount - 1]\<close>, \<open>startLine\<close> being one plus the number
  of newlines before the match (\<open>indexOf_first\<close>: the match is the first occurrence).
  With a dollar sign the replace block is a template of \<open>String.prototype.replace\<close>.
\<close>

lemma applyDiffPatches_replace_example:
  "applyDiffPatches (''foo'' @ [NL] @ ''baz'')
     (''<<<<<<< SEARCH'' @ [NL] @ ''foo'' @ [NL] @ ''======='' @ [NL] @ ''bar'' @ [NL]
        @ ''>>>>>>> REPLACE'')
   = \<lparr> modifiedContent = ''bar'' @ [NL] @ ''baz'', updatedLines = [[1, 1]], hasChanges = True \<rparr>"
  by code_simp

lemma applyDiffPatches_insert_example:
  "applyDiffPatches ''existing''
     (''<<<<<<< SEARCH'' @ [NL] @ ''======='' @ [NL] @ ''line1'' @ [NL] @ ''line2'' @ [NL]
        @ ''>>>>>>> REPLACE'')
   = \<lparr> modifiedContent = ''line1'' @ [NL] @ ''line2'' @ [NL] @ ''existing'',
       updatedLines = [[1, 2]], hasChanges = True \<rparr>"
  by code_simp

abbreviation (input) dollarPatch :: string where
  "dollarPatch \<equiv> ''<<<<<<< SEARCH'' @ [NL] @ ''1'' @ [NL] @ ''======='' @ [NL]
     @ [CHR 0x27, CHR ''$'', CHR 0x27] @ [NL] @ ''>>>>>>> REPLACE''"

text \<open>
  C3. The claim says that the first occurrence of the search text is replaced by the replace
  text. For the original \<open>x = 1;\<close> and a block that replaces \<open>1\<close> by \<open>'$'\<close> (a quoted
  dollar sign), the source returns \<open>x = ';;\<close> and not \<open>x = '$';\<close>: \<open>replace\<close> expands
  \<open>$'\<close> to the text after the match.
\<close>

theorem applyDiffPatches_dollar_template:
  "nextTriplet dollarPatch 0 = Some (''1'', [CHR 0x27, CHR ''$'', CHR 0x27], 44)
   \<and> indexOf ''x = 1;'' ''1'' 0 = Some 4
   \<and> applyDiffPatches ''x = 1;'' dollarPatch =
       \<lparr> modifiedContent = ''x = '' @ [CHR 0x27] @ '';;'',
         updatedLines = [[1, 1]], hasChanges = True \<rparr>"
  by code_simp

section \<open>Lock manager (the file store, \<open>src/unnamed/part_002\<close>)\<close>

text \<open>
  The store keeps a record from paths to directory entries. An optional field of the
  source (\<open>isLocked?\<close>, \<open>lockedByFolder?\<close>) is an \<open>option\<close>, \<open>None\<close> for a field that is
  unset or \<open>undefined\<close>. Each action returns the new store; the locking actions also
  return their boolean result.
\<close>

datatype Dirent =
    File (fileContent: string) (isBinary: bool) (isLocked: "bool option") (lockedByFolder: "string option")
  | Folder (isLocked: "bool option") (lockedByFolder: "string option")

type_synonym FileMap = "string \<rightharpoonup> Dirent"

record FileStore =
  files :: FileMap
  filesCount :: int
  modifiedFiles :: "string \<rightharpoonup> string"
  deletedPaths :: "string set"

definition initialStore :: FileStore where
  "initialStore = \<lparr> files = Map.empty, filesCount = 0, modifiedFiles = Map.empty, deletedPaths = {} \<rparr>"

fun isFile :: "Dirent option \<Rightarrow> bool" where
  "isFile (Some (File c b l f)) = True"
| "isFile _ = False"

fun isFolder :: "Dirent option \<Rightarrow> bool" where
  "isFolder (Some (Folder l f)) = True"
| "isFolder _ = False"

definition startsWith :: "string \<Rightarrow> string \<Rightarrow> bool" where
  "startsWith s p = prefix p s"

definition createFile :: "string \<Rightarrow> string \<Rightarrow> FileStore \<Rightarrow> FileStore" where
  "createFile filePath content state =
     state \<lparr> files := (files state)(filePath \<mapsto> File content False (Some False) None),
             modifiedFiles := (modifiedFiles state)(filePath \<mapsto> []),
             filesCount := filesCount state + 1 \<rparr>"

definition createFolder :: "string \<Rightarrow> FileStore \<Rightarrow> FileStore" where
  "createFolder folderPath state =
     state \<lparr> files := (files state)(folderPath \<mapsto> Folder (Some False) None) \<rparr>"

definition lockFile :: "string \<Rightarrow> FileStore \<Rightarrow> bool \<times> FileStore" where
  "lockFile filePath state =
     (case files state filePath of
        Some (File c b l f) \<Rightarrow>
          (True, state \<lparr> files := (files state)(filePath \<mapsto> File c b (Some True) f) \<rparr>)
      | _ \<Rightarrow> (False, state))"

definition unlockFile :: "string \<Rightarrow> FileStore \<Rightarrow> bool \<times> FileStore" where
  "unlockFile filePath state =
     (case files state filePath of
        Some (File c b l f) \<Rightarrow>
          (True, state \<lparr> files := (files state)(filePath \<mapsto> File c b (Some False) None) \<rparr>)
      | _ \<Rightarrow> (False, state))"

text \<open>
  \<open>lockFolder\<close> and \<open>unlockFolder\<close> copy the record, replace the folder's entry and then
  visit every key; a key is rewritten independently of the others, so the visit is a
  function on paths.
\<close>

definition lockFolder :: "string \<Rightarrow> FileStore \<Rightarrow> bool \<times> FileStore" where
  "lockFolder folderPath state =
     (case files state folderPath of
        Some (Folder l f) \<Rightarrow>
          (let updatedFiles = (files state)(folderPath \<mapsto> Folder (Some True) f)
           in (True, state \<lparr> files := (\<lambda>path.
                 (case updatedFiles path of
                    Some (File c b l' f') \<Rightarrow>
                      if startsWith path (folderPath @ ''/'')
                      then Some (File c b (Some True) (Some folderPath))
                      else Some (File c b l' f')
                  | other \<Rightarrow> other)) \<rparr>))
      | _ \<Rightarrow> (False, state))"

definition unlockFolder :: "string \<Rightarrow> FileStore \<Rightarrow> bool \<times> FileStore" where
  "unlockFolder folderPath state =
     (case files state folderPath of
        Some (Folder l f) \<Rightarrow>
          (let updatedFiles = (files state)(folderPath \<mapsto> Folder (Some False) f)
           in (True, state \<lparr> files := (\<lambda>path.
                 (case updatedFiles path of
                    Some (File c b l' f') \<Rightarrow>
                      if startsWith path (folderPath @ ''/'') \<and> f' = Some folderPath
                      then Some (File c b (Some False) None)
                      else Some (File c b l' f')
                  | other \<Rightarrow> other)) \<rparr>))
      | _ \<Rightarrow> (False, state))"

definition isFileLocked :: "string \<Rightarrow> FileStore \<Rightarrow> bool \<times> string option" where
  "isFileLocked filePath state =
     (case files state filePath of
        Some (File c b l f) \<Rightarrow>
          (if l = Some True
           then (True, (case f of None \<Rightarrow> Some filePath
                        | Some d \<Rightarrow> if d = [] then Some filePath else Some d))
           else (False, None))
      | _ \<Rightarrow> (False, None))"

definition srcStore :: FileStore where
  "srcStore = createFile ''/src/b.js'' ''x'' (createFolder ''/src'' initialStore)"

lemma unlockFolder_keeps_other_files:
  assumes "files state path = Some (File c b l f)" and "f \<noteq> Some folderPath"
  shows "files (snd (unlockFolder folderPath state)) path = Some (File c b l f)"
  using assms
  by (auto simp add: unlockFolder_def Let_def split: option.splits Dirent.splits)

lemma lockFolder_stamps_every_file:
  assumes "files state folderPath = Some (Folder l0 f0)"
    and "files state path = Some (File c b l f)" and "startsWith path (folderPath @ ''/'')"
  shows "files (snd (lockFolder folderPath state)) path
           = Some (File c b (Some True) (Some folderPath))"
  using assms
  by (auto simp add: lockFolder_def Let_def split: option.splits Dirent.splits)

text \<open>
  C2. The claim says that a file locked on its own with \<open>lockFile\<close> before its folder is
  locked stays locked when the folder is unlocked. In the store with the folder \<open>/src\<close>
  and the file \<open>/src/b.js\<close>: after \<open>lockFile\<close> the file is locked with \<open>lockedByFolder\<close>
  unset; \<open>lockFolder\<close> writes \<open>lockedByFolder = /src\<close> on it too
  (\<open>lockFolder_stamps_every_file\<close>); \<open>unlockFolder\<close> then clears its lock, and the file
  is reported as not locked. Only files whose \<open>lockedByFolder\<close> is another value are kept
  as they are (\<open>unlockFolder_keeps_other_files\<close>).
\<close>

theorem unlockFolder_unlocks_independent_lock:
  "files (snd (lockFile ''/src/b.js'' srcStore)) ''/src/b.js''
     = Some (File ''x'' False (Some True) None)
   \<and> files (snd (lockFolder ''/src'' (snd (lockFile ''/src/b.js'' srcStore)))) ''/src/b.js''
     = Some (File ''x'' False (Some True) (Some ''/src''))
   \<and> files (snd (unlockFolder ''/src''
        (snd (lockFolder ''/src'' (snd (lockFile ''/src/b.js'' srcStore)))))) ''/src/b.js''
     = Some (File ''x'' False (Some False) None)
   \<and> isFileLocked ''/src/b.js'' (snd (unlockFolder ''/src''
        (snd (lockFolder ''/src'' (snd (lockFile ''/src/b.js'' srcStore)))))) = (False, None)"
  by (simp add: srcStore_def initialStore_def createFile_def createFolder_def lockFile_def
        lockFolder_def unlockFolder_def isFileLocked_def startsWith_def Let_def)

section \<open>JavaScript regular expressions\<close>

text \<open>
  The parsers of the sources are written with regular expressions. \<open>regex\<close> is the syntax
  of the patterns they use and \<open>rmatch\<close> a backtracking matcher with the priorities of the
  language: a greedy quantifier tries the longest repetition first, a lazy one the shortest,
  an alternative or an optional group its first choice first. Every quantifier of the
  sources that repeats more than once is on a character class, which is what \<open>Rep\<close> is:
  \<open>Rep greedy lo hi neg p\<close> repeats the class \<open>lo\<close> to \<open>hi\<close> times. A class is a set
  \<open>p\<close> of characters, negated when \<open>neg\<close> holds. With the \<open>i\<close> flag letters are compared
  without case; the patterns are ASCII, so ASCII case folding is what the language does.
\<close>

definition lowerChars :: string where "lowerChars = ''abcdefghijklmnopqrstuvwxyz''"
definition upperChars :: string where "upperChars = ''ABCDEFGHIJKLMNOPQRSTUVWXYZ''"
definition digitChars :: string where "digitChars = ''0123456789''"

definition isDigit :: "char \<Rightarrow> bool" where
  "isDigit c = (c \<in> set digitChars)"

definition isWordChar :: "char \<Rightarrow> bool" where
  "isWordChar c = (c \<in> set lowerChars \<or> c \<in> set upperChars \<or> isDigit c \<or> c = CHR ''_'')"

definition isLineTerminator :: "char \<Rightarrow> bool" where
  "isLineTerminator c = (c = CHR 0x0A \<or> c = CHR 0x0D)"

definition toUpperAscii :: "char \<Rightarrow> char" where
  "toUpperAscii c = (case map_of (zip lowerChars upperChars) c of Some d \<Rightarrow> d | None \<Rightarrow> c)"

definition toLowerAscii :: "char \<Rightarrow> char" where
  "toLowerAscii c = (case map_of (zip upperChars lowerChars) c of Some d \<Rightarrow> d | None \<Rightarrow> c)"

type_synonym captures = "nat \<Rightarrow> string option"

datatype regex =
    Lit string
  | Cls bool "char \<Rightarrow> bool"
  | Rep bool nat "nat option" bool "char \<Rightarrow> bool"
  | Seq regex regex
  | Alt regex regex
  | Opt regex
  | Grp nat regex
  | Bol
  | Eol
  | Ahead regex

record flags =
  ignoreCase :: bool
  multiline :: bool

definition clsMatch :: "flags \<Rightarrow> bool \<Rightarrow> (char \<Rightarrow> bool) \<Rightarrow> char \<Rightarrow> bool" where
  "clsMatch fl neg p c =
     ((if ignoreCase fl then p c \<or> p (toUpperAscii c) \<or> p (toLowerAscii c) else p c) \<noteq> neg)"

definition litMatch :: "flags \<Rightarrow> string \<Rightarrow> string \<Rightarrow> bool" where
  "litMatch fl l s =
     (length l \<le> length s \<and>
      (if ignoreCase fl then map toUpperAscii (take (length l) s) = map toUpperAscii l
       else take (length l) s = l))"

definition repCounts :: "bool \<Rightarrow> nat \<Rightarrow> nat option \<Rightarrow> nat \<Rightarrow> nat list" where
  "repCounts greedy lo hi run =
     (let top = (case hi of None \<Rightarrow> run | Some h \<Rightarrow> min h run);
          counts = [lo ..< Suc top]
      in if greedy then rev counts else counts)"

text \<open>The character in front of the current position: \<open>whole\<close> is the input from the
  start of the match attempt, \<open>prior\<close> the character in front of it (\<open>None\<close> at the start
  of the input), \<open>s\<close> what is left to read.\<close>

definition prevChar :: "char option \<Rightarrow> string \<Rightarrow> string \<Rightarrow> char option" where
  "prevChar prior whole s =
     (if length whole \<le> length s then prior
      else Some (whole ! (length whole - length s - 1)))"

text \<open>
  The matcher keeps what is still to be matched as a stack of frames: \<open>Match r\<close> for a
  pattern, \<open>EndGroup n start\<close> for the end of capture group \<open>n\<close>, which began where the
  text left was \<open>start\<close>. \<open>tryCounts\<close> tries the repetition counts of a quantifier in
  their order of priority. \<open>weight\<close> is the measure of termination.
\<close>

datatype frame = Match regex | EndGroup nat string

type_synonym mstate = "string \<times> captures"

fun weight :: "frame list \<Rightarrow> nat" where
  "weight [] = 0"
| "weight (Match r # K) = 3 * size r + 2 + weight K"
| "weight (EndGroup n s # K) = 1 + weight K"

function rmatch :: "flags \<Rightarrow> char option \<Rightarrow> string \<Rightarrow> frame list \<Rightarrow> string \<Rightarrow> captures
                      \<Rightarrow> mstate option"
  and tryCounts :: "flags \<Rightarrow> char option \<Rightarrow> string \<Rightarrow> frame list \<Rightarrow> string \<Rightarrow> captures
                      \<Rightarrow> nat list \<Rightarrow> mstate option" where
  "rmatch fl prior whole [] s caps = Some (s, caps)"
| "rmatch fl prior whole (Match (Lit l) # K) s caps =
     (if litMatch fl l s then rmatch fl prior whole K (drop (length l) s) caps else None)"
| "rmatch fl prior whole (Match (Cls neg p) # K) s caps =
     (case s of [] \<Rightarrow> None
      | c # t \<Rightarrow> if clsMatch fl neg p c then rmatch fl prior whole K t caps else None)"
| "rmatch fl prior whole (Match (Rep greedy lo hi neg p) # K) s caps =
     tryCounts fl prior whole K s caps
       (repCounts greedy lo hi (length (takeWhile (clsMatch fl neg p) s)))"
| "rmatch fl prior whole (Match (Seq a b) # K) s caps =
     rmatch fl prior whole (Match a # Match b # K) s caps"
| "rmatch fl prior whole (Match (Alt a b) # K) s caps =
     (case rmatch fl prior whole (Match a # K) s caps of
        Some r \<Rightarrow> Some r
      | None \<Rightarrow> rmatch fl prior whole (Match b # K) s caps)"
| "rmatch fl prior whole (Match (Opt a) # K) s caps =
     (case rmatch fl prior whole (Match a # K) s caps of
        Some r \<Rightarrow> Some r
      | None \<Rightarrow> rmatch fl prior whole K s caps)"
| "rmatch fl prior whole (Match (Grp n a) # K) s caps =
     rmatch fl prior whole (Match a # EndGroup n s # K) s caps"
| "rmatch fl prior whole (EndGroup n start # K) s caps =
     rmatch fl prior whole K s (caps(n \<mapsto> take (length start - length s) start))"
| "rmatch fl prior whole (Match Bol # K) s caps =
     (case prevChar prior whole s of
        None \<Rightarrow> rmatch fl prior whole K s caps
      | Some c \<Rightarrow>
          if multiline fl \<and> isLineTerminator c then rmatch fl prior whole K s caps else None)"
| "rmatch fl prior whole (Match Eol # K) s caps =
     (case s of [] \<Rightarrow> rmatch fl prior whole K s caps
      | c # t \<Rightarrow>
          if multiline fl \<and> isLineTerminator c then rmatch fl prior whole K s caps else None)"
| "rmatch fl prior whole (Match (Ahead a) # K) s caps =
     (case rmatch fl prior whole [Match a] s caps of
        None \<Rightarrow> None
      | Some (s', caps') \<Rightarrow> rmatch fl prior whole K s caps')"
| "tryCounts fl prior whole K s caps [] = None"
| "tryCounts fl prior whole K s caps (n # ns) =
     (case rmatch fl prior whole K (drop n s) caps of
        Some r \<Rightarrow> Some r
      | None \<Rightarrow> tryCounts fl prior whole K s caps ns)"
  by pat_completeness auto
termination
  by (relation "inv_image (less_than <*lex*> less_than)
        (\<lambda>x. case x of
           Inl (fl, prior, whole, K, s, caps) \<Rightarrow> (weight K, 0)
         | Inr (fl, prior, whole, K, s, caps, ns) \<Rightarrow> (weight K, Suc (length ns)))")
     auto

record rmatch_result =
  groups :: captures
  matchedText :: string
  restText :: string

text \<open>\<open>execAt\<close>: a match that starts exactly at the head of \<open>s\<close>. \<open>search\<close>: the first
  position at or after the head of \<open>s\<close> where a match starts, with the match; this is
  \<open>re.exec\<close> from \<open>lastIndex\<close>. \<open>test\<close>: \<open>re.test(s)\<close> without the \<open>g\<close> flag.\<close>

definition execAt :: "flags \<Rightarrow> regex \<Rightarrow> char option \<Rightarrow> string \<Rightarrow> rmatch_result option" where
  "execAt fl r prior s =
     (case rmatch fl prior s [Match r] s (\<lambda>n. None) of
        None \<Rightarrow> None
      | Some (s', caps') \<Rightarrow>
          Some \<lparr> groups = caps', matchedText = take (length s - length s') s, restText = s' \<rparr>)"

fun search :: "flags \<Rightarrow> regex \<Rightarrow> char option \<Rightarrow> string \<Rightarrow> (nat \<times> rmatch_result) option" where
  "search fl r prior [] = map_option (Pair 0) (execAt fl r prior [])"
| "search fl r prior (c # s) =
     (case execAt fl r prior (c # s) of
        Some m \<Rightarrow> Some (0, m)
      | None \<Rightarrow> map_option (\<lambda>(i, m). (Suc i, m)) (search fl r (Some c) s))"

definition test :: "flags \<Rightarrow> regex \<Rightarrow> string \<Rightarrow> bool" where
  "test fl r s = (search fl r None s \<noteq> None)"

definition lastChar :: "char option \<Rightarrow> string \<Rightarrow> char option" where
  "lastChar prior consumed = (if consumed = [] then prior else Some (last consumed))"

text \<open>
  \<open>execAll\<close> is the loop \<open>while ((match = re.exec(input)) !== null)\<close> of a regular
  expression with the \<open>g\<close> flag: each search starts where the last match ended. A pattern
  that matches the empty string would keep \<open>lastIndex\<close> in place and the source's loop would
  not end; no pattern of the sources matches the empty string, and the model stops there.
\<close>

function execAll :: "flags \<Rightarrow> regex \<Rightarrow> char option \<Rightarrow> string \<Rightarrow> rmatch_result list" where
  "execAll fl r prior s =
     (case search fl r prior s of
        None \<Rightarrow> []
      | Some (i, m) \<Rightarrow>
          if length (restText m) < length s
          then m # execAll fl r (lastChar prior (take (length s - length (restText m)) s))
                     (restText m)
          else [])"
  by pat_completeness auto
termination
  by (relation "measure (\<lambda>(fl, r, prior, s). length s)") auto

declare execAll.simps [simp del]

definition oneOf :: "string \<Rightarrow> char \<Rightarrow> bool" where
  "oneOf cs c = (c \<in> set cs)"

definition seqs :: "regex list \<Rightarrow> regex" where
  "seqs rs = foldr Seq rs (Lit [])"

definition alts :: "regex list \<Rightarrow> regex" where
  "alts rs = foldr Alt (butlast rs) (last rs)"

abbreviation star :: "bool \<Rightarrow> (char \<Rightarrow> bool) \<Rightarrow> regex" where
  "star neg p \<equiv> Rep True 0 None neg p"

abbreviation plus :: "bool \<Rightarrow> (char \<Rightarrow> bool) \<Rightarrow> regex" where
  "plus neg p \<equiv> Rep True 1 None neg p"

definition noFlags :: flags where
  "noFlags = \<lparr> ignoreCase = False, multiline = False \<rparr>"

section \<open>Streaming tag parser (\<open>src/lib/streaming-parser.ts\<close>)\<close>

text \<open>
  The fields \<open>type\<close>, \<open>filePath\<close>, \<open>content\<close> and \<open>id\<close> of an action are \<open>actionType\<close>,
  \<open>actionFilePath\<close>, \<open>actionContent\<close> and \<open>actionIdent\<close>; the field \<open>id\<close> of an artifact is
  \<open>artifactIdent\<close>. \<open>parse\<close> has four \<open>while\<close> loops, one for each of the four patterns, each
  over all the matches in the new content, and then the step that adds the new content to
  an action that is still open. The bodies of the loops are \<open>onArtifactOpen\<close>,
  \<open>onActionOpen\<close>, \<open>onActionClose\<close> and \<open>onArtifactClose\<close>, the last step is \<open>accumulate\<close>.
  The parser of the class is the map \<open>messages\<close>; a call of a callback is an element of the
  list that \<open>parse\<close> returns. An action is pushed to the artifact and handed to the callback
  as one object that is not changed afterwards, so the model copies it.
\<close>

record ParsedAction =
  actionType :: string
  actionFilePath :: "string option"
  actionContent :: string
  actionIdent :: string

record ParsedArtifact =
  artifactIdent :: string
  title :: string
  actions :: "ParsedAction list"

record MessageState =
  position :: nat
  insideArtifact :: bool
  insideAction :: bool
  currentArtifact :: "ParsedArtifact option"
  currentAction :: "ParsedAction option"
  actionId :: nat

datatype Callback = OnActionStream ParsedAction | OnArtifactComplete ParsedArtifact

definition artifactOpen :: regex where
  \<open>artifactOpen = seqs
     [Lit ''<boltArtifact'', star True (oneOf ''>''),
      Lit ''id="'', Grp 1 (star True (oneOf ''"'')), Lit ''"'', star True (oneOf ''>''),
      Lit ''title="'', Grp 2 (star True (oneOf ''"'')), Lit ''"'', star True (oneOf ''>''),
      Lit ''>'']\<close>

definition artifactClose :: regex where
  "artifactClose = Lit ''</boltArtifact>''"

definition actionOpen :: regex where
  \<open>actionOpen = seqs
     [Lit ''<boltAction'', star True (oneOf ''>''),
      Lit ''type="'', Grp 1 (star True (oneOf ''"'')), Lit ''"'', star True (oneOf ''>''),
      Opt (seqs [Lit ''filePath="'', Grp 2 (star True (oneOf ''"'')), Lit ''"'']),
      star True (oneOf ''>''), Lit ''>'']\<close>

definition actionClose :: regex where
  "actionClose = Lit ''</boltAction>''"

text \<open>A capture group that took part in the match is a string; otherwise the variable
  bound to it is \<open>undefined\<close>. \<open>groupText\<close> reads a group that always takes part.\<close>

definition groupText :: "rmatch_result \<Rightarrow> nat \<Rightarrow> string" where
  "groupText m n = (case groups m n of Some g \<Rightarrow> g | None \<Rightarrow> [])"

fun showNat :: "nat \<Rightarrow> string" where
  "showNat n =
     (if n < 10 then [digitChars ! n] else showNat (n div 10) @ [digitChars ! (n mod 10)])"

declare showNat.simps [simp del]

definition initialState :: MessageState where
  "initialState = \<lparr> position = 0, insideArtifact = False, insideAction = False,
     currentArtifact = None, currentAction = None, actionId = 0 \<rparr>"

definition onArtifactOpen :: "MessageState \<Rightarrow> rmatch_result \<Rightarrow> MessageState" where
  "onArtifactOpen state m =
     state \<lparr> insideArtifact := True,
             currentArtifact :=
               Some \<lparr> artifactIdent = groupText m 1, title = groupText m 2, actions = [] \<rparr> \<rparr>"

definition onActionOpen :: "string \<Rightarrow> MessageState \<Rightarrow> rmatch_result \<Rightarrow> MessageState" where
  "onActionOpen messageId state m =
     state \<lparr> insideAction := True,
             actionId := actionId state + 1,
             currentAction := Some \<lparr> actionType = groupText m 1, actionFilePath = groups m 2,
               actionContent = [],
               actionIdent = messageId @ ''-'' @ showNat (actionId state + 1) \<rparr> \<rparr>"

definition onActionClose ::
  "MessageState \<times> Callback list \<Rightarrow> rmatch_result \<Rightarrow> MessageState \<times> Callback list" where
  "onActionClose sc m =
     (case sc of (state, calls) \<Rightarrow>
        (case currentAction state of
           Some action \<Rightarrow>
             if insideAction state then
               (state \<lparr> currentArtifact :=
                    (case currentArtifact state of
                       None \<Rightarrow> None
                     | Some artifact \<Rightarrow> Some (artifact \<lparr> actions := actions artifact @ [action] \<rparr>)),
                  insideAction := False,
                  currentAction := None \<rparr>,
                calls @ [OnActionStream action])
             else (state, calls)
         | None \<Rightarrow> (state, calls)))"

definition onArtifactClose ::
  "MessageState \<times> Callback list \<Rightarrow> rmatch_result \<Rightarrow> MessageState \<times> Callback list" where
  "onArtifactClose sc m =
     (case sc of (state, calls) \<Rightarrow>
        (case currentArtifact state of
           Some artifact \<Rightarrow>
             if insideArtifact state then
               (state \<lparr> insideArtifact := False, currentArtifact := None \<rparr>,
                calls @ [OnArtifactComplete artifact])
             else (state, calls)
         | None \<Rightarrow> (state, calls)))"

definition accumulate :: "string \<Rightarrow> MessageState \<Rightarrow> MessageState" where
  "accumulate newContent state =
     (case currentAction state of
        Some action \<Rightarrow>
          if insideAction state then
            (case indexOf newContent ''</boltAction>'' 0 of
               Some nextActionClose \<Rightarrow>
                 state \<lparr> currentAction := Some (action \<lparr> actionContent :=
                    actionContent action @ substring newContent 0 nextActionClose \<rparr>) \<rparr>
             | None \<Rightarrow>
                 state \<lparr> currentAction := Some (action \<lparr> actionContent :=
                    actionContent action @ newContent \<rparr>) \<rparr>)
          else state
      | None \<Rightarrow> state)"

type_synonym Parser = "string \<rightharpoonup> MessageState"

definition scan :: "regex \<Rightarrow> string \<Rightarrow> rmatch_result list" where
  "scan r s = execAll noFlags r None s"

definition parseState ::
  "string \<Rightarrow> string \<Rightarrow> MessageState \<Rightarrow> MessageState \<times> Callback list" where
  "parseState messageId input state0 =
     (let newContent = sliceFrom input (position state0);
          state1 = state0 \<lparr> position := length input \<rparr>;
          state2 = foldl onArtifactOpen state1 (scan artifactOpen newContent);
          state3 = foldl (onActionOpen messageId) state2 (scan actionOpen newContent);
          sc4 = foldl onActionClose (state3, []) (scan actionClose newContent);
          sc5 = foldl onArtifactClose sc4 (scan artifactClose newContent)
      in (accumulate newContent (fst sc5), snd sc5))"

definition getState :: "Parser \<Rightarrow> string \<Rightarrow> MessageState" where
  "getState messages messageId =
     (case messages messageId of None \<Rightarrow> initialState | Some state \<Rightarrow> state)"

definition parse :: "string \<Rightarrow> string \<Rightarrow> Parser \<Rightarrow> Parser \<times> Callback list" where
  "parse messageId input messages =
     (let res = parseState messageId input (getState messages messageId)
      in (messages(messageId \<mapsto> fst res), snd res))"

definition clear :: "string \<Rightarrow> Parser \<Rightarrow> Parser" where
  "clear messageId messages = messages(messageId := None)"

subsection \<open>One call\<close>

text \<open>
  The callbacks \<open>onActionStream\<close> and \<open>onArtifactComplete\<close> are the output of the parser:
  \<open>parse\<close> returns the list of calls it makes, in order. \<open>actionStreams\<close> and
  \<open>completedArtifacts\<close> read the actions and the artifacts handed over.
\<close>

fun actionStreams :: "Callback list \<Rightarrow> ParsedAction list" where
  "actionStreams [] = []"
| "actionStreams (OnActionStream a # cs) = a # actionStreams cs"
| "actionStreams (OnArtifactComplete a # cs) = actionStreams cs"

fun completedArtifacts :: "Callback list \<Rightarrow> ParsedArtifact list" where
  "completedArtifacts [] = []"
| "completedArtifacts (OnActionStream a # cs) = completedArtifacts cs"
| "completedArtifacts (OnArtifactComplete a # cs) = a # completedArtifacts cs"

lemma onActionClose_closed:
  "currentAction state = None \<Longrightarrow> onActionClose (state, calls) m = (state, calls)"
  by (simp add: onActionClose_def)

lemma foldl_onActionClose_closed:
  "currentAction state = None \<Longrightarrow> foldl onActionClose (state, calls) ms = (state, calls)"
  by (induction ms) (simp_all add: onActionClose_closed)

lemma foldl_onActionClose_open:
  assumes "ms \<noteq> []" and "insideAction state" and "currentAction state = Some action"
  shows "foldl onActionClose (state, calls) ms =
     (state \<lparr> currentArtifact :=
          (case currentArtifact state of
             None \<Rightarrow> None
           | Some artifact \<Rightarrow> Some (artifact \<lparr> actions := actions artifact @ [action] \<rparr>)),
        insideAction := False,
        currentAction := None \<rparr>,
      calls @ [OnActionStream action])"
proof -
  from assms(1) obtain m ms' where ms: "ms = m # ms'" by (cases ms) auto
  from assms(2,3) show ?thesis
    unfolding ms by (simp add: onActionClose_def foldl_onActionClose_closed)
qed

lemma onActionOpen_fields:
  "insideAction (onActionOpen messageId state m)"
  "currentArtifact (onActionOpen messageId state m) = currentArtifact state"
  "insideArtifact (onActionOpen messageId state m) = insideArtifact state"
  "\<exists>action. currentAction (onActionOpen messageId state m) = Some action
      \<and> actionContent action = []"
  by (simp_all add: onActionOpen_def)

lemma foldl_onActionOpen_keeps:
  "currentArtifact (foldl (onActionOpen messageId) state ms) = currentArtifact state
   \<and> insideArtifact (foldl (onActionOpen messageId) state ms) = insideArtifact state"
  by (induction ms arbitrary: state) (simp_all add: onActionOpen_fields)

lemma foldl_onActionOpen_last:
  assumes "ms \<noteq> []"
  shows "\<exists>action. actionContent action = []
     \<and> insideAction (foldl (onActionOpen messageId) state ms)
     \<and> currentAction (foldl (onActionOpen messageId) state ms) = Some action"
proof -
  from assms obtain ms' m where ms: "ms = ms' @ [m]" by (cases ms rule: rev_cases) auto
  from onActionOpen_fields(1,4) [of messageId "foldl (onActionOpen messageId) state ms'" m]
  show ?thesis unfolding ms by auto
qed

lemma onArtifactClose_cases:
  "onArtifactClose (state, calls) m = (state, calls)
   \<or> (\<exists>artifact. currentArtifact state = Some artifact
        \<and> onArtifactClose (state, calls) m =
            (state \<lparr> insideArtifact := False, currentArtifact := None \<rparr>,
             calls @ [OnArtifactComplete artifact]))"
  by (simp add: onArtifactClose_def split: option.splits)

lemma onArtifactClose_closed:
  "currentArtifact state = None \<Longrightarrow> onArtifactClose (state, calls) m = (state, calls)"
  by (simp add: onArtifactClose_def)

lemma foldl_onArtifactClose_closed:
  "currentArtifact state = None \<Longrightarrow> foldl onArtifactClose (state, calls) ms = (state, calls)"
  by (induction ms) (simp_all add: onArtifactClose_closed)

lemma foldl_onArtifactClose_cases:
  "foldl onArtifactClose (state, calls) ms = (state, calls)
   \<or> (\<exists>artifact. currentArtifact state = Some artifact
        \<and> foldl onArtifactClose (state, calls) ms =
            (state \<lparr> insideArtifact := False, currentArtifact := None \<rparr>,
             calls @ [OnArtifactComplete artifact]))"
proof (induction ms)
  case Nil
  show ?case by simp
next
  case (Cons m ms)
  from onArtifactClose_cases [of state calls m] show ?case
  proof
    assume "onArtifactClose (state, calls) m = (state, calls)"
    with Cons.IH show ?thesis by simp
  next
    assume "\<exists>artifact. currentArtifact state = Some artifact
        \<and> onArtifactClose (state, calls) m =
            (state \<lparr> insideArtifact := False, currentArtifact := None \<rparr>,
             calls @ [OnArtifactComplete artifact])"
    then show ?thesis by (auto simp add: foldl_onArtifactClose_closed)
  qed
qed

lemma accumulate_closed: "currentAction state = None \<Longrightarrow> accumulate newContent state = state"
  by (simp add: accumulate_def)

lemma parseState_open_and_close:
  assumes "scan actionOpen (sliceFrom input (position state0)) \<noteq> []"
    and "scan actionClose (sliceFrom input (position state0)) \<noteq> []"
  shows "\<exists>action. actionContent action = []
     \<and> actionStreams (snd (parseState messageId input state0)) = [action]
     \<and> currentAction (fst (parseState messageId input state0)) = None
     \<and> (\<forall>artifact \<in> set (completedArtifacts (snd (parseState messageId input state0)))
                        \<union> set_option (currentArtifact (fst (parseState messageId input state0))).
           actions artifact \<noteq> [] \<and> last (actions artifact) = action)"
proof -
  define newContent where "newContent = sliceFrom input (position state0)"
  define state2 where
    "state2 = foldl onArtifactOpen (state0 \<lparr> position := length input \<rparr>) (scan artifactOpen newContent)"
  define state3 where "state3 = foldl (onActionOpen messageId) state2 (scan actionOpen newContent)"
  from foldl_onActionOpen_last [OF assms(1), of messageId state2]
  obtain action where a: "actionContent action = []" "insideAction state3"
    "currentAction state3 = Some action"
    by (auto simp add: state3_def newContent_def)
  define state4 where "state4 = state3 \<lparr> currentArtifact :=
          (case currentArtifact state3 of
             None \<Rightarrow> None
           | Some artifact \<Rightarrow> Some (artifact \<lparr> actions := actions artifact @ [action] \<rparr>)),
        insideAction := False,
        currentAction := None \<rparr>"
  from assms(2) a have sc4: "foldl onActionClose (state3, []) (scan actionClose newContent)
      = (state4, [OnActionStream action])"
    by (simp add: foldl_onActionClose_open newContent_def state4_def)
  have res: "parseState messageId input state0 =
    (accumulate newContent (fst (foldl onArtifactClose (state4, [OnActionStream action]) (scan artifactClose newContent))),
     snd (foldl onArtifactClose (state4, [OnActionStream action]) (scan artifactClose newContent)))"
    using sc4 by (simp add: parseState_def Let_def newContent_def state2_def state3_def)
  have art: "\<forall>artifact \<in> set_option (currentArtifact state4).
      actions artifact \<noteq> [] \<and> last (actions artifact) = action"
    using a by (auto simp add: state4_def split: option.splits)
  have closed: "currentAction state4 = None" by (simp add: state4_def)
  from foldl_onArtifactClose_cases [of state4 "[OnActionStream action]" "scan artifactClose newContent"]
  show ?thesis
  proof
    assume "foldl onArtifactClose (state4, [OnActionStream action]) (scan artifactClose newContent)
       = (state4, [OnActionStream action])"
    with res a art closed show ?thesis by (simp add: accumulate_closed)
  next
    assume "\<exists>artifact. currentArtifact state4 = Some artifact
        \<and> foldl onArtifactClose (state4, [OnActionStream action]) (scan artifactClose newContent) =
            (state4 \<lparr> insideArtifact := False, currentArtifact := None \<rparr>,
             [OnActionStream action] @ [OnArtifactComplete artifact])"
    with res a art closed show ?thesis by (auto simp add: accumulate_closed)
  qed
qed


text \<open>
  C10. When the text scanned by one call of \<open>parse\<close> holds an opening tag and a closing
  tag of an action, the call hands exactly one action to \<open>onActionStream\<close>, its content is
  the empty string, the same action is the last one of the artifact it was appended to
  (the artifact completed by this call, or the one still open after it), and no action is
  left open: the text between the tags is not read by this call.
\<close>

theorem parse_action_closed_in_same_call:
  assumes "scan actionOpen (sliceFrom input (position (getState messages messageId))) \<noteq> []"
    and "scan actionClose (sliceFrom input (position (getState messages messageId))) \<noteq> []"
  shows "\<exists>action state'.
       fst (parse messageId input messages) messageId = Some state'
     \<and> actionStreams (snd (parse messageId input messages)) = [action]
     \<and> actionContent action = []
     \<and> currentAction state' = None
     \<and> (\<forall>artifact \<in> set (completedArtifacts (snd (parse messageId input messages)))
                        \<union> set_option (currentArtifact state').
           actions artifact \<noteq> [] \<and> last (actions artifact) = action)"
  using parseState_open_and_close [OF assms, of messageId]
  by (auto simp add: parse_def Let_def)

abbreviation (input) fullText :: string where
  \<open>fullText \<equiv> ''<boltArtifact id="a" title="t"><boltAction type="file">hi</boltAction></boltArtifact>''\<close>

abbreviation (input) partText :: string where
  \<open>partText \<equiv> ''<boltArtifact id="a" title="t"><boltAction type="file">h''\<close>

theorem parse_action_closed_in_same_call_witness:
  "scan actionOpen (sliceFrom fullText (position (getState Map.empty ''m''))) \<noteq> []
   \<and> scan actionClose (sliceFrom fullText (position (getState Map.empty ''m''))) \<noteq> []
   \<and> (\<exists>action. actionStreams (snd (parse ''m'' fullText Map.empty)) = [action]
         \<and> actionContent action = [])
   \<and> actionStreams (snd (parse ''m'' fullText Map.empty))
       = [\<lparr> actionType = ''file'', actionFilePath = None, actionContent = [], actionIdent = ''m-1'' \<rparr>]"
proof -
  have a: "scan actionOpen (sliceFrom fullText (position (getState Map.empty ''m''))) \<noteq> []"
    by code_simp
  have b: "scan actionClose (sliceFrom fullText (position (getState Map.empty ''m''))) \<noteq> []"
    by code_simp
  have c: "actionStreams (snd (parse ''m'' fullText Map.empty))
       = [\<lparr> actionType = ''file'', actionFilePath = None, actionContent = [], actionIdent = ''m-1'' \<rparr>]"
    by code_simp
  from parse_action_closed_in_same_call [OF a b]
  have "\<exists>action. actionStreams (snd (parse ''m'' fullText Map.empty)) = [action]
         \<and> actionContent action = []"
    by blast
  with a b c show ?thesis by blast
qed

subsection \<open>Growing prefixes\<close>

text \<open>\<open>parseAll\<close> calls \<open>parse\<close> for one message with each input of a list in turn,
  and collects the calls made.\<close>

fun parseAll :: "string \<Rightarrow> string list \<Rightarrow> Parser \<Rightarrow> Parser \<times> Callback list" where
  "parseAll messageId [] messages = (messages, [])"
| "parseAll messageId (input # inputs) messages =
     (let r1 = parse messageId input messages;
          r2 = parseAll messageId inputs (fst r1)
      in (fst r2, snd r1 @ snd r2))"

text \<open>A pattern without the anchor \<open>^\<close> matches the same way wherever the text starts;
  a pattern whose first character is \<open><\<close> matches nowhere in a text without it, and
  consumes at least that character.\<close>

fun noBol :: "regex \<Rightarrow> bool" where
  "noBol Bol = False"
| "noBol (Seq a b) = (noBol a \<and> noBol b)"
| "noBol (Alt a b) = (noBol a \<and> noBol b)"
| "noBol (Opt a) = noBol a"
| "noBol (Grp n a) = noBol a"
| "noBol (Ahead a) = noBol a"
| "noBol _ = True"

fun noBolFrame :: "frame \<Rightarrow> bool" where
  "noBolFrame (Match r) = noBol r"
| "noBolFrame (EndGroup n s) = True"

lemma rmatch_noBol:
  "list_all noBolFrame K \<Longrightarrow> rmatch fl p1 w1 K s caps = rmatch fl p2 w2 K s caps"
  "list_all noBolFrame K \<Longrightarrow> tryCounts fl p1 w1 K s caps ns = tryCounts fl p2 w2 K s caps ns"
proof (induction fl p1 w1 K s caps and fl p1 w1 K s caps ns rule: rmatch_tryCounts.induct)
  case (3 fl prior whole neg p K s caps)
  then show ?case by (cases s) auto
next
  case (6 fl prior whole a b K s caps)
  then show ?case by (auto split: option.splits)
next
  case (7 fl prior whole a K s caps)
  then show ?case by (auto split: option.splits)
next
  case (11 fl prior whole K s caps)
  then show ?case by (cases s) auto
next
  case (12 fl prior whole a K s caps)
  then show ?case by (auto split: option.splits)
next
  case (14 fl prior whole K s caps n ns)
  then show ?case by (auto split: option.splits)
qed simp_all

lemma execAt_noBol: "noBol r \<Longrightarrow> execAt fl r p1 s = execAt fl r p2 s"
  by (simp add: execAt_def rmatch_noBol(1) [of "[Match r]" fl p1 s s _ p2 s])

lemma search_noBol: "noBol r \<Longrightarrow> search fl r p1 s = search fl r p2 s"
proof (induction s arbitrary: p1 p2)
  case Nil
  then show ?case by (simp add: execAt_noBol [of r fl p1 "[]" p2])
next
  case (Cons c s)
  then show ?case by (simp add: execAt_noBol [of r fl p1 "c # s" p2])
qed

lemma execAll_noBol: "noBol r \<Longrightarrow> execAll fl r p1 s = execAll fl r p2 s"
proof (induction s arbitrary: p1 p2 rule: length_induct)
  case (1 s)
  show ?case
  proof (cases "search fl r p1 s")
    case None
    with search_noBol [OF "1.prems", of fl p1 s p2] show ?thesis
      by (simp add: execAll.simps [of fl r p1 s] execAll.simps [of fl r p2 s])
  next
    case (Some im)
    obtain i m where im: "im = (i, m)" by (cases im)
    from Some im search_noBol [OF "1.prems", of fl p1 s p2]
    have s2: "search fl r p2 s = Some (i, m)" by simp
    show ?thesis
    proof (cases "length (restText m) < length s")
      case True
      with "1.IH" "1.prems"
      have "execAll fl r (lastChar p1 (take (length s - length (restText m)) s)) (restText m)
          = execAll fl r (lastChar p2 (take (length s - length (restText m)) s)) (restText m)"
        by blast
      with Some im s2 True show ?thesis
        by (simp add: execAll.simps [of fl r p1 s] execAll.simps [of fl r p2 s])
    next
      case False
      with Some im s2 show ?thesis
        by (simp add: execAll.simps [of fl r p1 s] execAll.simps [of fl r p2 s])
    qed
  qed
qed

lemma rmatch_suffix:
  "rmatch fl p w K s caps = Some (s', caps') \<Longrightarrow> length s' \<le> length s"
  "tryCounts fl p w K s caps ns = Some (s', caps') \<Longrightarrow> length s' \<le> length s"
proof (induction fl p w K s caps and fl p w K s caps ns arbitrary: s' caps' and s' caps'
       rule: rmatch_tryCounts.induct)
  case (1 fl prior whole s caps)
  then show ?case by simp
next
  case (2 fl prior whole l K s caps)
  from "2.prems" have lm: "litMatch fl l s"
    and eq: "rmatch fl prior whole K (drop (length l) s) caps = Some (s', caps')"
    by (simp_all split: if_splits)
  from "2.IH" [OF lm eq] show ?case by simp
next
  case (3 fl prior whole neg p K s caps)
  from "3.prems" obtain c t where s: "s = c # t" and cm: "clsMatch fl neg p c"
    and eq: "rmatch fl prior whole K t caps = Some (s', caps')"
    by (cases s) (simp_all split: if_splits)
  from "3.IH" [OF s cm eq] s show ?case by simp
next
  case (4 fl prior whole greedy lo hi neg p K s caps)
  from "4.prems" "4.IH" show ?case by simp
next
  case (5 fl prior whole a b K s caps)
  from "5.prems" "5.IH" show ?case by simp
next
  case (6 fl prior whole a b K s caps)
  show ?case
  proof (cases "rmatch fl prior whole (Match a # K) s caps")
    case None
    with "6.prems" "6.IH"(2) show ?thesis by simp
  next
    case (Some r)
    with "6.prems" "6.IH"(1) show ?thesis by simp
  qed
next
  case (7 fl prior whole a K s caps)
  show ?case
  proof (cases "rmatch fl prior whole (Match a # K) s caps")
    case None
    with "7.prems" "7.IH"(2) show ?thesis by simp
  next
    case (Some r)
    with "7.prems" "7.IH"(1) show ?thesis by simp
  qed
next
  case (8 fl prior whole n a K s caps)
  from "8.prems" "8.IH" show ?case by simp
next
  case (9 fl prior whole n start K s caps)
  from "9.prems"
  have "rmatch fl prior whole K s (caps(n \<mapsto> take (length start - length s) start))
      = Some (s', caps')"
    by (simp only: rmatch.simps)
  then show ?case by (rule "9.IH")
next
  case (10 fl prior whole K s caps)
  show ?case
  proof (cases "prevChar prior whole s")
    case None
    with "10.prems" "10.IH"(1) show ?thesis by simp
  next
    case (Some c)
    with "10.prems" have m: "multiline fl \<and> isLineTerminator c"
      and eq: "rmatch fl prior whole K s caps = Some (s', caps')"
      by (simp_all split: if_splits)
    from "10.IH"(2) [OF Some m eq] show ?thesis .
  qed
next
  case (11 fl prior whole K s caps)
  show ?case
  proof (cases s)
    case Nil
    with "11.prems" "11.IH"(1) show ?thesis by simp
  next
    case (Cons c t)
    with "11.prems" have m: "multiline fl \<and> isLineTerminator c"
      and eq: "rmatch fl prior whole K s caps = Some (s', caps')"
      by (simp_all split: if_splits)
    from "11.IH"(2) [OF Cons m eq] show ?thesis .
  qed
next
  case (12 fl prior whole a K s caps)
  from "12.prems" obtain s1 c1 where a: "rmatch fl prior whole [Match a] s caps = Some (s1, c1)"
    and eq: "rmatch fl prior whole K s c1 = Some (s', caps')"
    by (auto split: option.splits)
  from "12.IH"(2) [OF a refl eq] show ?case .
next
  case (13 fl prior whole K s caps)
  then show ?case by simp
next
  case (14 fl prior whole K s caps n ns)
  show ?case
  proof (cases "rmatch fl prior whole K (drop n s) caps")
    case None
    with "14.prems" "14.IH"(2) show ?thesis by simp
  next
    case (Some r)
    with "14.prems" have "rmatch fl prior whole K (drop n s) caps = Some (s', caps')" by simp
    from "14.IH"(1) [OF this] show ?thesis by simp
  qed
qed

definition ltFirst :: "regex \<Rightarrow> bool" where
  "ltFirst r = (\<exists>l r'. r = Lit (CHR ''<'' # l) \<or> r = Seq (Lit (CHR ''<'' # l)) r')"

lemma litMatch_head:
  "litMatch noFlags (c # l) s \<Longrightarrow> s \<noteq> [] \<and> hd s = c \<and> length (drop (length (c # l)) s) < length s"
  by (cases s) (auto simp add: litMatch_def noFlags_def)

lemma execAt_ltFirst_None:
  assumes "ltFirst r" and "s = [] \<or> hd s \<noteq> CHR ''<''"
  shows "execAt noFlags r p s = None"
proof -
  from assms(2) have "\<not> litMatch noFlags (CHR ''<'' # l) s" for l
    by (auto dest: litMatch_head)
  with assms(1) show ?thesis by (auto simp add: ltFirst_def execAt_def)
qed

lemma execAt_ltFirst_progress:
  assumes "ltFirst r" and "execAt noFlags r p s = Some m"
  shows "length (restText m) < length s"
proof -
  from assms(2) obtain s' caps' where
    r: "rmatch noFlags p s [Match r] s (\<lambda>n. None) = Some (s', caps')"
    and m: "restText m = s'"
    by (auto simp add: execAt_def split: option.splits)
  from assms(1) obtain l r' where "r = Lit (CHR ''<'' # l) \<or> r = Seq (Lit (CHR ''<'' # l)) r'"
    by (auto simp add: ltFirst_def)
  then show ?thesis
  proof
    assume "r = Lit (CHR ''<'' # l)"
    with r m show ?thesis by (auto split: if_splits dest: litMatch_head)
  next
    assume s: "r = Seq (Lit (CHR ''<'' # l)) r'"
    with r have lm: "litMatch noFlags (CHR ''<'' # l) s"
      and r2: "rmatch noFlags p s [Match r'] (drop (length (CHR ''<'' # l)) s) (\<lambda>n. None)
                 = Some (s', caps')"
      by (auto split: if_splits)
    from rmatch_suffix(1) [OF r2] have "length s' \<le> length (drop (length (CHR ''<'' # l)) s)" .
    with litMatch_head [OF lm] m show ?thesis by simp
  qed
qed

lemma search_ltFirst_progress:
  "ltFirst r \<Longrightarrow> search noFlags r p s = Some (i, m) \<Longrightarrow> length (restText m) < length s"
proof (induction s arbitrary: p i)
  case Nil
  then show ?case by (auto simp add: execAt_ltFirst_None)
next
  case (Cons c s)
  show ?case
  proof (cases "execAt noFlags r p (c # s)")
    case None
    with Cons.prems obtain j where "search noFlags r (Some c) s = Some (j, m)" by auto
    from Cons.IH [OF Cons.prems(1) this] show ?thesis by simp
  next
    case (Some m')
    with Cons.prems have "m' = m" by simp
    with Some execAt_ltFirst_progress [OF Cons.prems(1), of p "c # s" m] show ?thesis by simp
  qed
qed

lemma search_skip:
  assumes "ltFirst r" and "noBol r" and "CHR ''<'' \<notin> set pre"
  shows "search noFlags r p (pre @ s)
           = map_option (\<lambda>(i, m). (length pre + i, m)) (search noFlags r p' s)"
  using assms(3)
proof (induction pre arbitrary: p)
  case Nil
  from search_noBol [OF assms(2), of noFlags p s p'] show ?case
    by (simp add: option.map_ident)
next
  case (Cons c pre)
  then have "execAt noFlags r p (c # pre @ s) = None"
    by (intro execAt_ltFirst_None [OF assms(1)]) auto
  moreover from Cons have "search noFlags r (Some c) (pre @ s)
           = map_option (\<lambda>(i, m). (length pre + i, m)) (search noFlags r p' s)" by simp
  ultimately show ?case by (simp add: option.map_comp comp_def split_def)
qed

lemma execAll_skip:
  assumes "ltFirst r" and "noBol r" and "CHR ''<'' \<notin> set pre"
  shows "execAll noFlags r p (pre @ s) = execAll noFlags r p' s"
proof (cases "search noFlags r p' s")
  case None
  with search_skip [OF assms, of p s p'] show ?thesis
    by (simp add: execAll.simps [of _ _ p "pre @ s"] execAll.simps [of _ _ p' s])
next
  case (Some im)
  obtain i m where im: "im = (i, m)" by (cases im)
  from Some im search_skip [OF assms, of p s p']
  have s1: "search noFlags r p (pre @ s) = Some (length pre + i, m)" by simp
  from search_ltFirst_progress [OF assms(1)] Some im have l: "length (restText m) < length s" by blast
  have "execAll noFlags r (lastChar p (take (length (pre @ s) - length (restText m)) (pre @ s))) (restText m)
      = execAll noFlags r (lastChar p' (take (length s - length (restText m)) s)) (restText m)"
    by (rule execAll_noBol [OF assms(2)])
  with Some im s1 l show ?thesis
    by (simp add: execAll.simps [of _ _ p "pre @ s"] execAll.simps [of _ _ p' s])
qed

lemma scan_skip:
  "ltFirst r \<Longrightarrow> noBol r \<Longrightarrow> CHR ''<'' \<notin> set pre \<Longrightarrow> scan r (pre @ s) = scan r s"
  by (simp add: scan_def execAll_skip [of r pre None s None])

lemma scan_Nil: "ltFirst r \<Longrightarrow> scan r [] = []"
  by (simp add: scan_def execAll.simps [of _ _ _ "[]"] execAt_ltFirst_None)

lemma scan_no_tag:
  "ltFirst r \<Longrightarrow> noBol r \<Longrightarrow> CHR ''<'' \<notin> set s \<Longrightarrow> scan r s = []"
  using scan_skip [of r s "[]"] by (simp add: scan_Nil)

lemma tag_patterns:
  "ltFirst artifactOpen" "noBol artifactOpen" "ltFirst actionOpen" "noBol actionOpen"
  "ltFirst artifactClose" "noBol artifactClose" "ltFirst actionClose" "noBol actionClose"
  by (simp_all add: ltFirst_def artifactOpen_def actionOpen_def artifactClose_def
        actionClose_def seqs_def)


definition idleState :: "nat \<Rightarrow> MessageState" where
  "idleState n = initialState \<lparr> position := n \<rparr>"

lemma idleState_0: "idleState 0 = initialState"
  by (simp add: idleState_def initialState_def)

lemma parseState_idle_no_tag:
  assumes "CHR ''<'' \<notin> set (sliceFrom input n)"
  shows "parseState messageId input (idleState n) = (idleState (length input), [])"
  using assms
  by (simp add: parseState_def idleState_def initialState_def Let_def scan_no_tag tag_patterns
        accumulate_def)

lemma parseState_idle_skip:
  assumes "CHR ''<'' \<notin> set (take n input)"
  shows "snd (parseState messageId input (idleState n))
           = snd (parseState messageId input initialState)"
proof -
  have "scan r (sliceFrom input n) = scan r input" if "ltFirst r" "noBol r" for r
    using scan_skip [OF that assms, of "drop n input"] by (simp add: sliceFrom_def)
  then show ?thesis
    by (simp add: parseState_def idleState_def initialState_def Let_def tag_patterns sliceFrom_def)
qed

lemma parse_idle_no_tag:
  assumes "CHR ''<'' \<notin> set input"
    and "messages messageId = None \<or> (\<exists>n. messages messageId = Some (idleState n))"
  shows "parse messageId input messages
           = (messages(messageId \<mapsto> idleState (length input)), [])"
proof -
  from assms(2) have "\<exists>n. getState messages messageId = idleState n"
  proof
    assume "messages messageId = None"
    then have "getState messages messageId = idleState 0" by (simp add: getState_def idleState_0)
    then show ?thesis ..
  next
    assume "\<exists>n. messages messageId = Some (idleState n)"
    then show ?thesis by (auto simp add: getState_def)
  qed
  then obtain n where n: "getState messages messageId = idleState n" ..
  from assms(1) have "CHR ''<'' \<notin> set (sliceFrom input n)"
    by (auto simp add: sliceFrom_def dest: in_set_dropD)
  from parseState_idle_no_tag [OF this] n show ?thesis by (simp add: parse_def Let_def)
qed

lemma parseAll_no_tag:
  assumes "\<forall>p \<in> set ps. CHR ''<'' \<notin> set p"
    and "messages messageId = None \<or> (\<exists>n. messages messageId = Some (idleState n))"
  shows "snd (parseAll messageId ps messages) = []
     \<and> fst (parseAll messageId ps messages) messageId
         = (if ps = [] then messages messageId else Some (idleState (length (last ps))))"
  using assms
proof (induction ps arbitrary: messages)
  case Nil
  show ?case by simp
next
  case (Cons p ps)
  define messages1 where "messages1 = messages(messageId \<mapsto> idleState (length p))"
  from Cons.prems have p: "parse messageId p messages = (messages1, [])"
    unfolding messages1_def by (intro parse_idle_no_tag) auto
  from Cons.prems(1) have pre: "\<forall>q \<in> set ps. CHR ''<'' \<notin> set q" by simp
  have m1: "messages1 messageId = Some (idleState (length p))" by (simp add: messages1_def)
  then have st: "messages1 messageId = None \<or> (\<exists>n. messages1 messageId = Some (idleState n))"
    by blast
  from Cons.IH [of messages1, OF pre st] m1
  have "snd (parseAll messageId ps messages1) = []
     \<and> fst (parseAll messageId ps messages1) messageId
         = (if ps = [] then Some (idleState (length p)) else Some (idleState (length (last ps))))"
    by simp
  with p show ?case by (simp add: Let_def)
qed

lemma parseAll_append:
  "parseAll messageId (xs @ ys) messages =
     (fst (parseAll messageId ys (fst (parseAll messageId xs messages))),
      snd (parseAll messageId xs messages)
        @ snd (parseAll messageId ys (fst (parseAll messageId xs messages))))"
  by (induction xs arbitrary: messages) (simp_all add: Let_def)

text \<open>
  Calls that bring no tag change nothing but the cursor: for a message with no earlier
  state and a strictly growing sequence of prefixes of a text, ending with the text itself,
  in which no prefix before the last contains the character \<open><\<close>, the calls made are the same
  as those of one call with the full text, and so are the completed artifacts.
\<close>

lemma parseAll_prefixes_without_tags:
  assumes "sorted_wrt strict_prefix (ps @ [full])"
    and "\<forall>p \<in> set ps. CHR ''<'' \<notin> set p"
    and "messages messageId = None"
  shows "snd (parseAll messageId (ps @ [full]) messages) = snd (parse messageId full messages)
     \<and> completedArtifacts (snd (parseAll messageId (ps @ [full]) messages))
         = completedArtifacts (snd (parse messageId full messages))"
proof -
  define messages' where "messages' = fst (parseAll messageId ps messages)"
  from parseAll_no_tag [OF assms(2), of messages messageId] assms(3)
  have calls: "snd (parseAll messageId ps messages) = []"
    and st: "messages' messageId
       = (if ps = [] then None else Some (idleState (length (last ps))))"
    by (simp_all add: messages'_def)
  have "snd (parse messageId full messages') = snd (parse messageId full messages)"
  proof (cases "ps = []")
    case True
    with st assms(3) show ?thesis by (simp add: parse_def getState_def Let_def)
  next
    case False
    then have l: "last ps \<in> set ps" by simp
    with assms(1) have "strict_prefix (last ps) full" by (simp add: sorted_wrt_append)
    then have "take (length (last ps)) full = last ps"
      by (auto simp add: strict_prefix_def prefix_def)
    with l assms(2) have "CHR ''<'' \<notin> set (take (length (last ps)) full)" by simp
    from parseState_idle_skip [OF this, of messageId] st False assms(3) show ?thesis
      by (simp add: parse_def getState_def Let_def)
  qed
  with calls have "snd (parseAll messageId (ps @ [full]) messages)
      = snd (parse messageId full messages)"
    by (simp add: parseAll_append Let_def messages'_def)
  then show ?thesis by simp
qed

lemma parseAll_prefixes_without_tags_example:
  "sorted_wrt strict_prefix ([''Here '', ''Here it is: ''] @ [''Here it is: '' @ fullText])
   \<and> CHR ''<'' \<notin> set ''Here '' \<and> CHR ''<'' \<notin> set ''Here it is: ''
   \<and> (Map.empty :: Parser) ''m'' = None
   \<and> completedArtifacts
        (snd (parseAll ''m'' ([''Here '', ''Here it is: ''] @ [''Here it is: '' @ fullText]) Map.empty))
      = completedArtifacts (snd (parse ''m'' (''Here it is: '' @ fullText) Map.empty))
   \<and> completedArtifacts (snd (parse ''m'' (''Here it is: '' @ fullText) Map.empty))
      = [\<lparr> artifactIdent = ''a'', title = ''t'',
           actions = [\<lparr> actionType = ''file'', actionFilePath = None, actionContent = [],
                        actionIdent = ''m-1'' \<rparr>] \<rparr>]"
proof -
  have a: "sorted_wrt strict_prefix ([''Here '', ''Here it is: ''] @ [''Here it is: '' @ fullText])"
    by simp
  have b: "\<forall>p \<in> set [''Here '', ''Here it is: '']. CHR ''<'' \<notin> set p" by simp
  have c: "(Map.empty :: Parser) ''m'' = None" by simp
  have d: "completedArtifacts (snd (parse ''m'' (''Here it is: '' @ fullText) Map.empty))
      = [\<lparr> artifactIdent = ''a'', title = ''t'',
           actions = [\<lparr> actionType = ''file'', actionFilePath = None, actionContent = [],
                        actionIdent = ''m-1'' \<rparr>] \<rparr>]"
    by code_simp
  from parseAll_prefixes_without_tags [OF a b c] a b c d show ?thesis by simp
qed

text \<open>
  C1. Calling \<open>parse\<close> with a strictly growing sequence of prefixes of a text is to give the
  same completed artifacts as one call with the full text. It does not: when the first call
  receives the text up to a point inside an action, \<open>accumulate\<close> appends the whole of that
  input, tags included, to the content of the open action, and the action completed by the
  second call has this content, while one call with the full text gives it the empty
  content. The branch of \<open>accumulate\<close> that is to take the text up to the closing tag is
  never taken, because the loop over the closing tags has closed the action before.
\<close>

theorem parseAll_prefix_inside_action_differs:
  "sorted_wrt strict_prefix [partText, fullText]
   \<and> completedArtifacts (snd (parseAll ''m'' [partText, fullText] Map.empty))
      = [\<lparr> artifactIdent = ''a'', title = ''t'',
           actions = [\<lparr> actionType = ''file'', actionFilePath = None, actionContent = partText,
                        actionIdent = ''m-1'' \<rparr>] \<rparr>]
   \<and> completedArtifacts (snd (parse ''m'' fullText Map.empty))
      = [\<lparr> artifactIdent = ''a'', title = ''t'',
           actions = [\<lparr> actionType = ''file'', actionFilePath = None, actionContent = [],
                        actionIdent = ''m-1'' \<rparr>] \<rparr>]
   \<and> set (completedArtifacts (snd (parseAll ''m'' [partText, fullText] Map.empty)))
      \<noteq> set (completedArtifacts (snd (parse ''m'' fullText Map.empty)))"
proof -
  have a: "sorted_wrt strict_prefix [partText, fullText]" by simp
  have b: "completedArtifacts (snd (parseAll ''m'' [partText, fullText] Map.empty))
      = [\<lparr> artifactIdent = ''a'', title = ''t'',
           actions = [\<lparr> actionType = ''file'', actionFilePath = None, actionContent = partText,
                        actionIdent = ''m-1'' \<rparr>] \<rparr>]"
    by code_simp
  have c: "completedArtifacts (snd (parse ''m'' fullText Map.empty))
      = [\<lparr> artifactIdent = ''a'', title = ''t'',
           actions = [\<lparr> actionType = ''file'', actionFilePath = None, actionContent = [],
                        actionIdent = ''m-1'' \<rparr>] \<rparr>]"
    by code_simp
  from a b c show ?thesis by simp
qed

text \<open>
  The cursor is moved to the end of each input, so a tag that the end of a prefix cuts in two
  is in no scanned text as a whole: here the action is not seen at all.
\<close>

lemma parseAll_prefix_inside_tag_loses_action:
  \<open>completedArtifacts
     (snd (parseAll ''m'' [''<boltArtifact id="a" title="t"><boltAc'', fullText] Map.empty))
   = [\<lparr> artifactIdent = ''a'', title = ''t'', actions = [] \<rparr>]\<close>
  by code_simp

section \<open>Command scheduler (\<open>src/unnamed/part_003\<close>)\<close>

text \<open>
  The three arrays of the queue hold references to \<open>Command\<close> objects, and
  \<open>executeCommand\<close> changes the status of an object that the \<open>running\<close> array refers to.
  The model has the objects in a store, \<open>objects\<close>, with the index as the address, and the
  arrays as lists of addresses. \<open>processQueue\<close> contains no \<open>await\<close>, so it runs to its end
  when called. \<open>executeCommand\<close> runs up to its \<open>await\<close> (\<open>executeCommand\<close> below) and
  continues when the executor has answered (\<open>finishCommand\<close>, with the answer \<open>outcome\<close>:
  \<open>Inr\<close> an output, \<open>Inl\<close> the message of an error); \<open>executing\<close> lists the calls that
  wait for their answer, each with its start time. Identifiers and clock readings
  (\<open>generateId\<close>, \<open>Date.now\<close>, \<open>performance.now\<close>) are arguments; \<open>maxConcurrent\<close> is a
  count.
\<close>

datatype CommandType = Install | Build | Dev | Custom

datatype CommandStatus = Pending | Running | Completed | Failed

record Command =
  commandId :: string
  command :: string
  commandType :: CommandType
  status :: CommandStatus
  commandOutput :: "string option"
  commandError :: "string option"
  timestamp :: nat
  duration :: "nat option"

record CommandQueue =
  objects :: "Command list"
  queue :: "nat list"
  running :: "nat list"
  completed :: "nat list"
  maxConcurrent :: nat
  retryAttempts :: nat
  retryDelay :: nat
  isProcessing :: bool
  executing :: "(nat \<times> nat) list"

definition newCommandQueue :: "nat \<Rightarrow> CommandQueue" where
  "newCommandQueue n =
     \<lparr> objects = [], queue = [], running = [], completed = [],
       maxConcurrent = n, retryAttempts = 3, retryDelay = 1000,
       isProcessing = False, executing = [] \<rparr>"

definition commandQueue :: CommandQueue where
  "commandQueue = newCommandQueue 2"

definition setObject :: "nat \<Rightarrow> (Command \<Rightarrow> Command) \<Rightarrow> CommandQueue \<Rightarrow> CommandQueue" where
  "setObject ref f q = q \<lparr> objects := (objects q)[ref := f (objects q ! ref)] \<rparr>"

definition executeCommand :: "nat \<Rightarrow> nat \<Rightarrow> CommandQueue \<Rightarrow> CommandQueue" where
  "executeCommand now ref q =
     (setObject ref (\<lambda>c. c \<lparr> status := Running \<rparr>) q) \<lparr> executing := executing q @ [(ref, now)] \<rparr>"

function processLoop :: "nat \<Rightarrow> CommandQueue \<Rightarrow> CommandQueue" where
  "processLoop now q =
     (if queue q \<noteq> [] \<and> length (running q) < maxConcurrent q
      then processLoop now
             (executeCommand now (hd (queue q))
                (q \<lparr> queue := tl (queue q), running := running q @ [hd (queue q)] \<rparr>))
      else q)"
  by pat_completeness auto
termination
  by (relation "measure (\<lambda>(now, q). length (queue q))")
     (auto simp add: executeCommand_def setObject_def)

declare processLoop.simps [simp del]

definition processQueue :: "nat \<Rightarrow> CommandQueue \<Rightarrow> CommandQueue" where
  "processQueue now q =
     (if isProcessing q \<or> maxConcurrent q \<le> length (running q) then q
      else (processLoop now (q \<lparr> isProcessing := True \<rparr>)) \<lparr> isProcessing := False \<rparr>)"

definition addCommand ::
  "string \<Rightarrow> CommandType \<Rightarrow> string \<Rightarrow> nat \<Rightarrow> nat \<Rightarrow> CommandQueue \<Rightarrow> string \<times> CommandQueue" where
  "addCommand cmdText ty newId dateNow now q =
     (let cmd = \<lparr> commandId = newId, command = cmdText, commandType = ty, status = Pending,
                  commandOutput = None, commandError = None, timestamp = dateNow, duration = None \<rparr>
      in (newId,
          processQueue now
            (q \<lparr> objects := objects q @ [cmd], queue := queue q @ [length (objects q)] \<rparr>)))"

definition finishCommand ::
  "nat \<Rightarrow> nat \<Rightarrow> string + string \<Rightarrow> nat \<Rightarrow> CommandQueue \<Rightarrow> CommandQueue" where
  "finishCommand ref startTime outcome now q =
     (let q1 = setObject ref
                 (\<lambda>c. case outcome of
                    Inr out \<Rightarrow> c \<lparr> status := Completed, commandOutput := Some out,
                                  duration := Some (now - startTime) \<rparr>
                  | Inl msg \<Rightarrow> c \<lparr> status := Failed, commandError := Some msg,
                                  duration := Some (now - startTime) \<rparr>)
                 (q \<lparr> executing := remove1 (ref, startTime) (executing q) \<rparr>);
          q2 = q1 \<lparr> completed := completed q1 @ [ref],
                    running := filter (\<lambda>c. commandId (objects q1 ! c) \<noteq> commandId (objects q1 ! ref))
                                 (running q1) \<rparr>
      in processQueue now q2)"

definition retryCommand :: "string \<Rightarrow> nat \<Rightarrow> CommandQueue \<Rightarrow> CommandQueue" where
  "retryCommand ident now q =
     (case find (\<lambda>c. commandId (objects q ! c) = ident \<and> status (objects q ! c) = Failed)
             (completed q) of
        None \<Rightarrow> q
      | Some ref \<Rightarrow>
          (let q1 = setObject ref (\<lambda>c. c \<lparr> status := Pending, commandError := None \<rparr>) q;
               q2 = q1 \<lparr> queue := queue q1 @ [ref],
                         completed := filter (\<lambda>c. commandId (objects q1 ! c) \<noteq> ident)
                                        (completed q1) \<rparr>
           in processQueue now q2))"

definition clearCompleted :: "CommandQueue \<Rightarrow> CommandQueue" where
  "clearCompleted q = q \<lparr> completed := [] \<rparr>"

record QueueStatus =
  pendingCount :: nat
  runningCount :: nat
  completedCount :: nat
  failedCount :: nat

definition getQueueStatus :: "CommandQueue \<Rightarrow> QueueStatus" where
  "getQueueStatus q =
     \<lparr> pendingCount = length (queue q),
       runningCount = length (running q),
       completedCount = length (completed q),
       failedCount = length (filter (\<lambda>c. status (objects q ! c) = Failed) (completed q)) \<rparr>"

text \<open>
  The states of a queue created with \<open>maxConcurrent = n\<close>: any sequence of \<open>addCommand\<close>,
  \<open>retryCommand\<close> and \<open>clearCompleted\<close> calls, interleaved in any order with the answers
  of the executor to the calls that wait. \<open>generateId\<close> is taken to return an identifier
  that no command of the queue has yet.
\<close>

inductive reachable :: "nat \<Rightarrow> CommandQueue \<Rightarrow> bool" for n :: nat where
  created: "reachable n (newCommandQueue n)"
| added: "reachable n q \<Longrightarrow> newId \<notin> set (map commandId (objects q))
     \<Longrightarrow> reachable n (snd (addCommand cmdText ty newId dateNow now q))"
| finished: "reachable n q \<Longrightarrow> (ref, startTime) \<in> set (executing q)
     \<Longrightarrow> reachable n (finishCommand ref startTime outcome now q)"
| retried: "reachable n q \<Longrightarrow> reachable n (retryCommand ident now q)"
| cleared: "reachable n q \<Longrightarrow> reachable n (clearCompleted q)"

subsection \<open>The invariant of the queue\<close>

definition statusOf :: "CommandQueue \<Rightarrow> nat \<Rightarrow> CommandStatus" where
  "statusOf q ref = status (objects q ! ref)"

definition queueInv :: "CommandQueue \<Rightarrow> bool" where
  "queueInv q =
     (distinct (map commandId (objects q))
      \<and> distinct (running q)
      \<and> set (running q) = {r. r < length (objects q) \<and> statusOf q r = Running}
      \<and> distinct (map fst (executing q))
      \<and> fst ` set (executing q) = set (running q)
      \<and> distinct (queue q)
      \<and> (\<forall>r \<in> set (queue q). r < length (objects q) \<and> statusOf q r = Pending)
      \<and> (\<forall>r \<in> set (completed q). r < length (objects q)
             \<and> (statusOf q r = Completed \<or> statusOf q r = Failed))
      \<and> length (running q) \<le> maxConcurrent q)"

lemma processLoop_inv: "queueInv q \<Longrightarrow> queueInv (processLoop now q)"
proof (induction now q rule: processLoop.induct)
  case (1 now q)
  show ?case
  proof (cases "queue q \<noteq> [] \<and> length (running q) < maxConcurrent q")
    case False
    with "1.prems" show ?thesis by (auto simp add: processLoop.simps [of now q])
  next
    case True
    then obtain ref rest where qu: "queue q = ref # rest" by (cases "queue q") auto
    define q' where "q' = executeCommand now ref (q \<lparr> queue := rest, running := running q @ [ref] \<rparr>)"
    from "1.prems" qu have ref: "ref < length (objects q)" "statusOf q ref = Pending"
      "ref \<notin> set rest" "distinct rest"
      by (auto simp add: queueInv_def)
    have st: "statusOf q' r = (if r = ref then Running else statusOf q r)"
      if "r < length (objects q)" for r
      using that by (simp add: q'_def executeCommand_def setObject_def statusOf_def)
    have len: "length (objects q') = length (objects q)"
      by (simp add: q'_def executeCommand_def setObject_def)
    have ids: "map commandId (objects q') = map commandId (objects q)"
      using ref(1)
      by (simp add: q'_def executeCommand_def setObject_def map_update list_update_same_conv)
    have fields: "queue q' = rest" "running q' = running q @ [ref]"
      "executing q' = executing q @ [(ref, now)]" "completed q' = completed q"
      "maxConcurrent q' = maxConcurrent q"
      by (simp_all add: q'_def executeCommand_def setObject_def)
    from "1.prems" ref have notrun: "ref \<notin> set (running q)" by (auto simp add: queueInv_def)
    have "queueInv q'"
      unfolding queueInv_def
    proof (intro conjI)
      show "distinct (map commandId (objects q'))" using "1.prems" ids by (simp add: queueInv_def)
      show "distinct (running q')" using "1.prems" notrun fields by (simp add: queueInv_def)
      show "set (running q') = {r. r < length (objects q') \<and> statusOf q' r = Running}"
        using "1.prems" ref st len fields by (auto simp add: queueInv_def)
      show "distinct (map fst (executing q'))"
        using "1.prems" notrun fields by (auto simp add: queueInv_def)
      show "fst ` set (executing q') = set (running q')"
        using "1.prems" fields by (auto simp add: queueInv_def)
      show "distinct (queue q')" using ref fields by simp
      show "\<forall>r \<in> set (queue q'). r < length (objects q') \<and> statusOf q' r = Pending"
        using "1.prems" qu ref st len fields by (auto simp add: queueInv_def)
      show "\<forall>r \<in> set (completed q'). r < length (objects q')
             \<and> (statusOf q' r = Completed \<or> statusOf q' r = Failed)"
        using "1.prems" ref st len fields by (auto simp add: queueInv_def)
      show "length (running q') \<le> maxConcurrent q'" using True fields by simp
    qed
    from "1.IH" [OF True] this qu have "queueInv (processLoop now q')" by (simp add: q'_def)
    with True qu show ?thesis by (simp add: processLoop.simps [of now q] q'_def)
  qed
qed


lemma queueInv_isProcessing [simp]: "queueInv (q \<lparr> isProcessing := b \<rparr>) = queueInv q"
  by (simp add: queueInv_def statusOf_def)

lemma processQueue_inv: "queueInv q \<Longrightarrow> queueInv (processQueue now q)"
  by (simp add: processQueue_def processLoop_inv)

lemma processLoop_maxConcurrent: "maxConcurrent (processLoop now q) = maxConcurrent q"
proof (induction now q rule: processLoop.induct)
  case (1 now q)
  show ?case
  proof (cases "queue q \<noteq> [] \<and> length (running q) < maxConcurrent q")
    case True
    with "1.IH" show ?thesis
      by (simp add: processLoop.simps [of now q] executeCommand_def setObject_def)
  next
    case False
    then show ?thesis by (auto simp add: processLoop.simps [of now q])
  qed
qed

lemma processQueue_maxConcurrent: "maxConcurrent (processQueue now q) = maxConcurrent q"
  by (simp add: processQueue_def processLoop_maxConcurrent)

lemma newCommandQueue_inv: "queueInv (newCommandQueue n)"
  by (simp add: queueInv_def newCommandQueue_def)

lemma addCommand_inv:
  assumes "queueInv q" and "newId \<notin> set (map commandId (objects q))"
  shows "queueInv (snd (addCommand cmdText ty newId dateNow now q))"
proof -
  define cmd where "cmd = \<lparr> commandId = newId, command = cmdText, commandType = ty,
     status = Pending, commandOutput = None, commandError = None, timestamp = dateNow,
     duration = None \<rparr>"
  define q' where "q' = q \<lparr> objects := objects q @ [cmd], queue := queue q @ [length (objects q)] \<rparr>"
  have st: "statusOf q' r = (if r = length (objects q) then Pending else statusOf q r)"
    if "r \<le> length (objects q)" for r
    using that by (simp add: q'_def statusOf_def nth_append cmd_def)
  have fields: "objects q' = objects q @ [cmd]" "queue q' = queue q @ [length (objects q)]"
    "running q' = running q" "executing q' = executing q" "completed q' = completed q"
    "maxConcurrent q' = maxConcurrent q"
    by (simp_all add: q'_def)
  have "queueInv q'"
    unfolding queueInv_def
  proof (intro conjI)
    show "distinct (map commandId (objects q'))"
      using assms fields by (simp add: queueInv_def cmd_def)
    show "distinct (running q')" using assms fields by (simp add: queueInv_def)
    show "set (running q') = {r. r < length (objects q') \<and> statusOf q' r = Running}"
      using assms st fields by (auto simp add: queueInv_def less_Suc_eq)
    show "distinct (map fst (executing q'))" using assms fields by (simp add: queueInv_def)
    show "fst ` set (executing q') = set (running q')" using assms fields by (simp add: queueInv_def)
    show "distinct (queue q')" using assms fields by (auto simp add: queueInv_def)
    show "\<forall>r \<in> set (queue q'). r < length (objects q') \<and> statusOf q' r = Pending"
      using assms st fields by (auto simp add: queueInv_def)
    show "\<forall>r \<in> set (completed q'). r < length (objects q')
             \<and> (statusOf q' r = Completed \<or> statusOf q' r = Failed)"
      using assms st fields by (auto simp add: queueInv_def)
    show "length (running q') \<le> maxConcurrent q'" using assms fields by (simp add: queueInv_def)
  qed
  then show ?thesis
    by (simp add: addCommand_def Let_def processQueue_inv q'_def cmd_def)
qed

lemma finishCommand_inv:
  assumes "queueInv q" and "(ref, startTime) \<in> set (executing q)"
  shows "queueInv (finishCommand ref startTime outcome now q)"
proof -
  define f :: "Command \<Rightarrow> Command" where "f = (\<lambda>c. case outcome of
                    Inr out \<Rightarrow> c \<lparr> status := Completed, commandOutput := Some out,
                                  duration := Some (now - startTime) \<rparr>
                  | Inl msg \<Rightarrow> c \<lparr> status := Failed, commandError := Some msg,
                                  duration := Some (now - startTime) \<rparr>)"
  define q1 where "q1 = setObject ref f (q \<lparr> executing := remove1 (ref, startTime) (executing q) \<rparr>)"
  define q2 where "q2 = q1 \<lparr> completed := completed q1 @ [ref],
                    running := filter (\<lambda>c. commandId (objects q1 ! c) \<noteq> commandId (objects q1 ! ref))
                                 (running q1) \<rparr>"
  have fid: "commandId (f c) = commandId c" for c by (simp add: f_def split: sum.splits)
  have fst: "status (f c) = Completed \<or> status (f c) = Failed" for c
    by (simp add: f_def split: sum.splits)
  from assms have "ref \<in> fst ` set (executing q)" by force
  with assms(1) have run: "ref \<in> set (running q)" by (simp add: queueInv_def)
  with assms(1) have ref: "ref < length (objects q)" "statusOf q ref = Running"
    by (auto simp add: queueInv_def)
  have len: "length (objects q2) = length (objects q)"
    by (simp add: q2_def q1_def setObject_def)
  have ids: "commandId (objects q1 ! r) = commandId (objects q ! r)" if "r < length (objects q)" for r
    using that by (cases "r = ref") (simp_all add: q1_def setObject_def fid)
  have idmap: "map commandId (objects q2) = map commandId (objects q)"
    using ref(1)
    by (intro nth_equalityI) (auto simp add: q2_def q1_def setObject_def nth_list_update fid)
  have st: "statusOf q2 r = (if r = ref then status (f (objects q ! ref)) else statusOf q r)"
    if "r < length (objects q)" for r
    using that by (simp add: q2_def q1_def setObject_def statusOf_def)
  have same: "commandId (objects q ! r) = commandId (objects q ! ref) \<longleftrightarrow> r = ref"
    if "r < length (objects q)" for r
    using that ref(1) assms(1) by (auto simp add: queueInv_def distinct_conv_nth)
  have "filter (\<lambda>c. commandId (objects q1 ! c) \<noteq> commandId (objects q1 ! ref)) (running q)
      = filter (\<lambda>c. c \<noteq> ref) (running q)"
  proof (rule filter_cong [OF refl])
    fix r assume "r \<in> set (running q)"
    with assms(1) have "r < length (objects q)" by (auto simp add: queueInv_def)
    with ids ref(1) same show "(commandId (objects q1 ! r) \<noteq> commandId (objects q1 ! ref)) = (r \<noteq> ref)"
      by simp
  qed
  then have runq2: "running q2 = filter (\<lambda>c. c \<noteq> ref) (running q)"
    by (simp add: q2_def q1_def setObject_def)
  have fields: "queue q2 = queue q" "completed q2 = completed q @ [ref]"
    "executing q2 = remove1 (ref, startTime) (executing q)" "maxConcurrent q2 = maxConcurrent q"
    by (simp_all add: q2_def q1_def setObject_def)
  from assms(1) have dex: "distinct (map fst (executing q))" by (simp add: queueInv_def)
  then have dex': "distinct (executing q)" by (simp add: distinct_map)
  have uniq: "b = startTime" if "(ref, b) \<in> set (executing q)" for b
    using that assms(2) dex by (force simp add: distinct_map inj_on_def)
  from dex' have sr: "set (remove1 (ref, startTime) (executing q))
      = set (executing q) - {(ref, startTime)}"
    by simp
  have exset: "fst ` set (remove1 (ref, startTime) (executing q)) = fst ` set (executing q) - {ref}"
  proof (intro set_eqI iffI)
    fix r assume "r \<in> fst ` set (remove1 (ref, startTime) (executing q))"
    with sr have "r \<in> fst ` (set (executing q) - {(ref, startTime)})" by simp
    then obtain b where b: "(r, b) \<in> set (executing q)" "(r, b) \<noteq> (ref, startTime)"
      by force
    with uniq have "r \<noteq> ref" by auto
    with b show "r \<in> fst ` set (executing q) - {ref}" by force
  next
    fix r assume "r \<in> fst ` set (executing q) - {ref}"
    then obtain b where "(r, b) \<in> set (executing q)" "r \<noteq> ref" by auto
    with sr have "(r, b) \<in> set (remove1 (ref, startTime) (executing q))" by simp
    then show "r \<in> fst ` set (remove1 (ref, startTime) (executing q))" by force
  qed
  have "queueInv q2"
    unfolding queueInv_def
  proof (intro conjI)
    show "distinct (map commandId (objects q2))" using assms(1) idmap by (simp add: queueInv_def)
    show "distinct (running q2)" using assms(1) runq2 by (simp add: queueInv_def)
    show "set (running q2) = {r. r < length (objects q2) \<and> statusOf q2 r = Running}"
      using assms(1) st len runq2 fst [of "objects q ! ref"]
      by (auto simp add: queueInv_def split: if_splits)
    show "distinct (map fst (executing q2))"
      using dex fields by (simp add: distinct_map inj_on_def)
    show "fst ` set (executing q2) = set (running q2)"
      using assms(1) fields runq2 exset by (auto simp add: queueInv_def)
    show "distinct (queue q2)" using assms(1) fields by (simp add: queueInv_def)
    show "\<forall>r \<in> set (queue q2). r < length (objects q2) \<and> statusOf q2 r = Pending"
      using assms(1) ref st len fields by (auto simp add: queueInv_def)
    show "\<forall>r \<in> set (completed q2). r < length (objects q2)
             \<and> (statusOf q2 r = Completed \<or> statusOf q2 r = Failed)"
      using assms(1) ref st len fields fst [of "objects q ! ref"]
      by (auto simp add: queueInv_def split: if_splits)
    show "length (running q2) \<le> maxConcurrent q2"
      using assms(1) fields runq2
      by (auto simp add: queueInv_def intro: le_trans [OF length_filter_le])
  qed
  then show ?thesis
    by (simp add: finishCommand_def Let_def processQueue_inv q2_def q1_def f_def)
qed


lemma retryCommand_inv:
  assumes "queueInv q"
  shows "queueInv (retryCommand ident now q)"
proof (cases "find (\<lambda>c. commandId (objects q ! c) = ident \<and> status (objects q ! c) = Failed)
             (completed q)")
  case None
  with assms show ?thesis by (simp add: retryCommand_def)
next
  case (Some ref)
  define q1 where "q1 = setObject ref (\<lambda>c. c \<lparr> status := Pending, commandError := None \<rparr>) q"
  define q2 where "q2 = q1 \<lparr> queue := queue q1 @ [ref],
                         completed := filter (\<lambda>c. commandId (objects q1 ! c) \<noteq> ident)
                                        (completed q1) \<rparr>"
  from Some have refc: "ref \<in> set (completed q)" and rid: "commandId (objects q ! ref) = ident"
    and rst: "statusOf q ref = Failed"
    by (auto simp add: find_Some_iff statusOf_def)
  with assms have ref: "ref < length (objects q)" by (auto simp add: queueInv_def)
  have len: "length (objects q2) = length (objects q)"
    by (simp add: q2_def q1_def setObject_def)
  have idmap: "map commandId (objects q2) = map commandId (objects q)"
    using ref
    by (intro nth_equalityI) (auto simp add: q2_def q1_def setObject_def nth_list_update)
  have st: "statusOf q2 r = (if r = ref then Pending else statusOf q r)"
    if "r < length (objects q)" for r
    using that by (simp add: q2_def q1_def setObject_def statusOf_def)
  have fields: "queue q2 = queue q @ [ref]" "running q2 = running q"
    "executing q2 = executing q" "maxConcurrent q2 = maxConcurrent q"
    "set (completed q2) \<subseteq> set (completed q) - {ref}"
    using ref rid
    by (auto simp add: q2_def q1_def setObject_def nth_list_update split: if_splits)
  have "queueInv q2"
    unfolding queueInv_def
  proof (intro conjI)
    show "distinct (map commandId (objects q2))" using assms idmap by (simp add: queueInv_def)
    show "distinct (running q2)" using assms fields by (simp add: queueInv_def)
    show "set (running q2) = {r. r < length (objects q2) \<and> statusOf q2 r = Running}"
      using assms st len fields rst by (auto simp add: queueInv_def split: if_splits)
    show "distinct (map fst (executing q2))" using assms fields by (simp add: queueInv_def)
    show "fst ` set (executing q2) = set (running q2)" using assms fields by (simp add: queueInv_def)
    show "distinct (queue q2)" using assms fields rst by (auto simp add: queueInv_def)
    show "\<forall>r \<in> set (queue q2). r < length (objects q2) \<and> statusOf q2 r = Pending"
      using assms ref st len fields by (auto simp add: queueInv_def)
    show "\<forall>r \<in> set (completed q2). r < length (objects q2)
             \<and> (statusOf q2 r = Completed \<or> statusOf q2 r = Failed)"
    proof
      fix r assume "r \<in> set (completed q2)"
      with fields(5) have r: "r \<in> set (completed q)" "r \<noteq> ref" by auto
      with assms have "r < length (objects q)" "statusOf q r = Completed \<or> statusOf q r = Failed"
        by (auto simp add: queueInv_def)
      with r st [of r] len
      show "r < length (objects q2) \<and> (statusOf q2 r = Completed \<or> statusOf q2 r = Failed)"
        by simp
    qed
    show "length (running q2) \<le> maxConcurrent q2" using assms fields by (simp add: queueInv_def)
  qed
  with Some show ?thesis
    by (simp add: retryCommand_def Let_def processQueue_inv q2_def q1_def)
qed

lemma clearCompleted_inv: "queueInv q \<Longrightarrow> queueInv (clearCompleted q)"
  by (simp add: queueInv_def clearCompleted_def statusOf_def)

lemma reachable_inv: "reachable n q \<Longrightarrow> queueInv q \<and> maxConcurrent q = n"
proof (induction rule: reachable.induct)
  case created
  show ?case by (simp add: newCommandQueue_inv) (simp add: newCommandQueue_def)
next
  case (added q newId cmdText ty dateNow now)
  then show ?case
    by (simp add: addCommand_inv) (simp add: addCommand_def Let_def processQueue_maxConcurrent)
next
  case (finished q ref startTime outcome now)
  then show ?case
    by (simp add: finishCommand_inv)
       (simp add: finishCommand_def Let_def processQueue_maxConcurrent setObject_def)
next
  case (retried q ident now)
  then show ?case
    by (simp add: retryCommand_inv)
       (simp add: retryCommand_def Let_def processQueue_maxConcurrent setObject_def
          split: option.splits)
next
  case (cleared q)
  then show ?case by (simp add: clearCompleted_inv) (simp add: clearCompleted_def)
qed

lemma running_count:
  assumes "queueInv q"
  shows "length (filter (\<lambda>c. status c = Running) (objects q)) = length (running q)"
proof -
  from assms have s: "{r. r < length (objects q) \<and> status (objects q ! r) = Running}
      = set (running q)"
    and d: "distinct (running q)"
    by (simp_all add: queueInv_def statusOf_def)
  have "length (filter (\<lambda>c. status c = Running) (objects q))
      = card {r. r < length (objects q) \<and> status (objects q ! r) = Running}"
    by (rule length_filter_conv_card)
  also have "\<dots> = card (set (running q))" by (simp only: s)
  also have "\<dots> = length (running q)" by (rule distinct_card [OF d])
  finally show ?thesis .
qed

text \<open>
  C8. In every reachable state of a queue with \<open>maxConcurrent = n\<close>, at most \<open>n\<close> commands
  have the status \<open>Running\<close>; they are the commands of the \<open>running\<close> array, whose length
  \<open>getQueueStatus\<close> reports. (\<open>processLoop\<close> admits a command only while that length is
  below \<open>n\<close>; \<open>finishCommand\<close> alone removes from it.)
\<close>

theorem running_never_exceeds_maxConcurrent:
  assumes "reachable n q"
  shows "length (filter (\<lambda>c. status c = Running) (objects q)) \<le> n
     \<and> length (filter (\<lambda>c. status c = Running) (objects q)) = runningCount (getQueueStatus q)
     \<and> runningCount (getQueueStatus q) \<le> n"
proof -
  from reachable_inv [OF assms] have inv: "queueInv q" and n: "maxConcurrent q = n" by simp_all
  from inv have "length (running q) \<le> maxConcurrent q" by (simp add: queueInv_def)
  with n running_count [OF inv] show ?thesis by (simp add: getQueueStatus_def)
qed


abbreviation (input) queue1 :: CommandQueue where
  "queue1 \<equiv> snd (addCommand ''npm install'' Install ''c1'' 0 0 (newCommandQueue 2))"
abbreviation (input) queue2 :: CommandQueue where
  "queue2 \<equiv> snd (addCommand ''npm run build'' Build ''c2'' 0 0 queue1)"
abbreviation (input) queue3 :: CommandQueue where
  "queue3 \<equiv> snd (addCommand ''npm run dev'' Dev ''c3'' 0 0 queue2)"
abbreviation (input) queue4 :: CommandQueue where
  "queue4 \<equiv> snd (addCommand ''ls'' Custom ''c4'' 0 0 queue3)"
abbreviation (input) queue5 :: CommandQueue where
  "queue5 \<equiv> snd (addCommand ''pwd'' Custom ''c5'' 0 0 queue4)"

theorem running_never_exceeds_maxConcurrent_witness:
  "reachable 2 (finishCommand 0 0 (Inr ''done'') 7 queue5)
   \<and> length (filter (\<lambda>c. status c = Running) (objects (finishCommand 0 0 (Inr ''done'') 7 queue5))) \<le> 2
   \<and> getQueueStatus queue5
       = \<lparr> pendingCount = 3, runningCount = 2, completedCount = 0, failedCount = 0 \<rparr>
   \<and> getQueueStatus (finishCommand 0 0 (Inr ''done'') 7 queue5)
       = \<lparr> pendingCount = 2, runningCount = 2, completedCount = 1, failedCount = 0 \<rparr>"
proof -
  have f1: "''c1'' \<notin> set (map commandId (objects (newCommandQueue 2)))" by code_simp
  have f2: "''c2'' \<notin> set (map commandId (objects queue1))" by code_simp
  have f3: "''c3'' \<notin> set (map commandId (objects queue2))" by code_simp
  have f4: "''c4'' \<notin> set (map commandId (objects queue3))" by code_simp
  have f5: "''c5'' \<notin> set (map commandId (objects queue4))" by code_simp
  have ex: "(0, 0) \<in> set (executing queue5)" by code_simp
  have r5: "reachable 2 queue5"
    by (intro reachable.added reachable.created f1 f2 f3 f4 f5)
  have r6: "reachable 2 (finishCommand 0 0 (Inr ''done'') 7 queue5)"
    by (rule reachable.finished [OF r5 ex])
  have s5: "getQueueStatus queue5
       = \<lparr> pendingCount = 3, runningCount = 2, completedCount = 0, failedCount = 0 \<rparr>"
    by code_simp
  have s6: "getQueueStatus (finishCommand 0 0 (Inr ''done'') 7 queue5)
       = \<lparr> pendingCount = 2, runningCount = 2, completedCount = 1, failedCount = 0 \<rparr>"
    by code_simp
  from running_never_exceeds_maxConcurrent [OF r6] r6 s5 s6 show ?thesis by simp
qed

section \<open>Debounced batcher (\<open>src/lib/debounced-updater.ts\<close>)\<close>

text \<open>
  The batcher works with a timer and an asynchronous handler. The model keeps, beside the
  fields of the class, what the environment holds: \<open>timers\<close>, the handles of the timers
  that are set and have not fired (\<open>nextTimer\<close> is the next handle \<open>setTimeout\<close> returns; a
  handle is a \<open>Timeout\<close> object, never falsy, and the number is its name);
  \<open>awaiting\<close>, the batch whose handler was called and has not settled; \<open>handed\<close>, every
  batch given to the handler so far; \<open>console\<close>, the lines logged. \<open>processBatch\<close> is the
  part of the method up to its \<open>await\<close>; \<open>handlerSettled\<close> is the rest of it, the \<open>try\<close>,
  \<open>catch\<close> and \<open>finally\<close> branches, run when the handler has resolved or thrown.
  \<open>Date.now\<close> and the identifier of \<open>generateId\<close> are arguments.

  \<open>pendingFiles\<close> is an ordinary object made by \<open>{}\<close>; the model has it as the list of its
  own properties in the order in which \<open>Object.keys\<close> and the spread \<open>{ ...pendingFiles }\<close>
  go through them: first the keys that are array indices (the decimal numerals of
  \<open>0\<close> to \<open>2\<^sup>3\<^sup>2 - 2\<close>, without a sign or leading zeros), in ascending order, then the other
  keys in the order in which they were created. \<open>setProperty\<close> is the assignment
  \<open>obj[k] = v\<close> of a string \<open>v\<close>: an own property keeps its place and takes the value; a new
  key becomes an own property, except \<open>__proto__\<close>, which the object inherits from
  \<open>Object.prototype\<close> as an accessor whose setter does nothing when given a string. The
  other properties of \<open>Object.prototype\<close> are writable data properties, and an assignment
  to one of their names makes an own property like any other.
\<close>

record UpdateBatch =
  batchFiles :: "(string \<times> string) list"
  batchCommands :: "string list"
  batchTimestamp :: nat
  batchId :: string

datatype LogEntry =
    ProcessedBatch string nat nat
  | BatchFailed string string

record DebouncedUpdater =
  pendingFiles :: "(string \<times> string) list"
  pendingCommands :: "string list"
  timeoutId :: "nat option"
  isProcessingBatch :: bool
  delay :: nat
  maxBatchSize :: nat
  timers :: "nat list"
  nextTimer :: nat
  awaiting :: "UpdateBatch option"
  handed :: "UpdateBatch list"
  console :: "LogEntry list"

definition newDebouncedUpdater :: "nat \<Rightarrow> nat \<Rightarrow> DebouncedUpdater" where
  "newDebouncedUpdater d m =
     \<lparr> pendingFiles = [], pendingCommands = [], timeoutId = None, isProcessingBatch = False,
       delay = d, maxBatchSize = m, timers = [], nextTimer = 0, awaiting = None,
       handed = [], console = [] \<rparr>"

definition debouncedUpdater :: DebouncedUpdater where
  "debouncedUpdater = newDebouncedUpdater 500 10"

definition decimal :: "string \<Rightarrow> int" where
  "decimal k = foldl (\<lambda>n c. 10 * n + (of_char c - 48)) 0 k"

definition arrayIndex :: "string \<Rightarrow> int option" where
  "arrayIndex k =
     (if k \<noteq> [] \<and> list_all isDigit k \<and> (k = ''0'' \<or> hd k \<noteq> CHR ''0'')
         \<and> length k \<le> 10 \<and> decimal k \<le> 4294967294
      then Some (decimal k) else None)"

fun insertIndex :: "int \<Rightarrow> string \<Rightarrow> string \<Rightarrow> (string \<times> string) list \<Rightarrow> (string \<times> string) list" where
  "insertIndex n k v [] = [(k, v)]"
| "insertIndex n k v ((k', v') # kvs) =
     (case arrayIndex k' of
        None \<Rightarrow> (k, v) # (k', v') # kvs
      | Some m \<Rightarrow> if m < n then (k', v') # insertIndex n k v kvs else (k, v) # (k', v') # kvs)"

definition setProperty :: "(string \<times> string) list \<Rightarrow> string \<Rightarrow> string \<Rightarrow> (string \<times> string) list" where
  "setProperty kvs k v =
     (if map_of kvs k \<noteq> None then map (\<lambda>(k', v'). if k' = k then (k', v) else (k', v')) kvs
      else if k = ''__proto__'' then kvs
      else (case arrayIndex k of
              None \<Rightarrow> kvs @ [(k, v)]
            | Some n \<Rightarrow> insertIndex n k v kvs))"

definition clearTimeout :: "nat \<Rightarrow> DebouncedUpdater \<Rightarrow> DebouncedUpdater" where
  "clearTimeout h u = u \<lparr> timers := removeAll h (timers u) \<rparr>"

definition scheduleUpdate :: "DebouncedUpdater \<Rightarrow> DebouncedUpdater" where
  "scheduleUpdate u =
     (let u1 = (case timeoutId u of None \<Rightarrow> u | Some h \<Rightarrow> clearTimeout h u)
      in u1 \<lparr> timeoutId := Some (nextTimer u1),
              timers := timers u1 @ [nextTimer u1],
              nextTimer := nextTimer u1 + 1 \<rparr>)"

definition addFile :: "string \<Rightarrow> string \<Rightarrow> DebouncedUpdater \<Rightarrow> DebouncedUpdater" where
  "addFile path content u =
     scheduleUpdate (u \<lparr> pendingFiles := setProperty (pendingFiles u) path content \<rparr>)"

definition addPendingCommand :: "string \<Rightarrow> DebouncedUpdater \<Rightarrow> DebouncedUpdater" where
  "addPendingCommand cmd u =
     scheduleUpdate (u \<lparr> pendingCommands := pendingCommands u @ [cmd] \<rparr>)"

definition processBatch :: "nat \<Rightarrow> string \<Rightarrow> DebouncedUpdater \<Rightarrow> DebouncedUpdater" where
  "processBatch dateNow newId u =
     (if isProcessingBatch u \<or> (pendingFiles u = [] \<and> pendingCommands u = []) then u
      else
        (let batch = \<lparr> batchFiles = pendingFiles u, batchCommands = pendingCommands u,
                       batchTimestamp = dateNow, batchId = newId \<rparr>
         in u \<lparr> isProcessingBatch := True, pendingFiles := [], pendingCommands := [],
                awaiting := Some batch, handed := handed u @ [batch] \<rparr>))"

datatype HandlerResult = Resolved | Rejected string

definition handlerSettled :: "HandlerResult \<Rightarrow> DebouncedUpdater \<Rightarrow> DebouncedUpdater" where
  "handlerSettled res u =
     (case awaiting u of
        None \<Rightarrow> u
      | Some batch \<Rightarrow>
          u \<lparr> console := console u @
                 [case res of
                    Resolved \<Rightarrow> ProcessedBatch (batchId batch) (length (batchFiles batch))
                                  (length (batchCommands batch))
                  | Rejected e \<Rightarrow> BatchFailed (batchId batch) e],
              isProcessingBatch := False,
              awaiting := None \<rparr>)"

definition timerFires :: "nat \<Rightarrow> nat \<Rightarrow> string \<Rightarrow> DebouncedUpdater \<Rightarrow> DebouncedUpdater" where
  "timerFires h dateNow newId u =
     (if h \<in> set (timers u)
      then processBatch dateNow newId (u \<lparr> timers := removeAll h (timers u) \<rparr>)
      else u)"

definition flush :: "nat \<Rightarrow> string \<Rightarrow> DebouncedUpdater \<Rightarrow> DebouncedUpdater" where
  "flush dateNow newId u =
     processBatch dateNow newId
       (case timeoutId u of
          None \<Rightarrow> u
        | Some h \<Rightarrow> (clearTimeout h u) \<lparr> timeoutId := None \<rparr>)"

definition hasPendingUpdates :: "DebouncedUpdater \<Rightarrow> bool" where
  "hasPendingUpdates u = (pendingFiles u \<noteq> [] \<or> pendingCommands u \<noteq> [])"

lemma map_of_update_own:
  "map_of kvs k \<noteq> None
   \<Longrightarrow> map_of (map (\<lambda>(k', v'). if k' = k then (k', v) else (k', v')) kvs) k = Some v"
  by (induction kvs) (auto split: if_splits)

lemma map_of_insertIndex:
  "map_of kvs k = None \<Longrightarrow> map_of (insertIndex n k v kvs) k = Some v"
  by (induction kvs) (auto split: option.splits if_splits)

lemma setProperty_lookup:
  assumes "k \<noteq> ''__proto__''"
  shows "map_of (setProperty kvs k v) k = Some v"
proof (cases "map_of kvs k")
  case None
  with assms show ?thesis
    by (simp add: setProperty_def map_of_insertIndex map_add_def split: option.splits)
next
  case (Some w)
  then have "map_of kvs k \<noteq> None" by simp
  from map_of_update_own [OF this] Some show ?thesis by (simp add: setProperty_def)
qed

lemma setProperty_not_empty:
  assumes "k \<noteq> ''__proto__''"
  shows "setProperty kvs k v \<noteq> []"
proof
  assume "setProperty kvs k v = []"
  then have "map_of (setProperty kvs k v) k = None" by simp
  with setProperty_lookup [OF assms, of kvs v] show False by simp
qed

lemma setProperty_proto: "setProperty [] ''__proto__'' v = []"
  by (simp add: setProperty_def)

lemma setProperty_order:
  "setProperty (setProperty (setProperty (setProperty [] ''b'' ''1'') ''10'' ''2'') ''9'' ''3'')
      ''a'' ''4''
   = [(''9'', ''3''), (''10'', ''2''), (''b'', ''1''), (''a'', ''4'')]"
  by code_simp

lemma scheduleUpdate_fields:
  "pendingFiles (scheduleUpdate u) = pendingFiles u"
  "pendingCommands (scheduleUpdate u) = pendingCommands u"
  "isProcessingBatch (scheduleUpdate u) = isProcessingBatch u"
  "handed (scheduleUpdate u) = handed u"
  "timeoutId (scheduleUpdate u) = Some (nextTimer u)"
  "nextTimer u \<in> set (timers (scheduleUpdate u))"
  by (simp_all add: scheduleUpdate_def clearTimeout_def Let_def split: option.splits)

text \<open>
  An addition under the path \<open>__proto__\<close> leaves nothing pending, with or without a failure
  before it, and \<open>flush\<close> then hands no batch to the handler.
\<close>

lemma addFile_proto_not_pending:
  "\<not> hasPendingUpdates (addFile ''__proto__'' ''x'' debouncedUpdater)
   \<and> handed (flush 1 ''b1'' (addFile ''__proto__'' ''x'' debouncedUpdater)) = []"
  by code_simp

text \<open>
  C9. When the handler throws for the batch it was given: the failure is logged; the pending
  buffers are what they were, the batch is not put back; the batcher is no longer
  processing; and a later addition is flushed as a batch of its own, by \<open>flush\<close> or by
  its timer, holding that addition and whatever was added while the handler ran. A later
  addition is a command, or a file under a path that \<open>addFile\<close> makes pending, which is every
  path but \<open>__proto__\<close>. The batcher after the failure is in the state in which it would be
  had the handler returned, but for the line logged.
\<close>

theorem handler_failure_does_not_block:
  assumes "awaiting u = Some batch"
  shows "console (handlerSettled (Rejected e) u) = console u @ [BatchFailed (batchId batch) e]
     \<and> pendingFiles (handlerSettled (Rejected e) u) = pendingFiles u
     \<and> pendingCommands (handlerSettled (Rejected e) u) = pendingCommands u
     \<and> handed (handlerSettled (Rejected e) u) = handed u
     \<and> \<not> isProcessingBatch (handlerSettled (Rejected e) u)
     \<and> handlerSettled (Rejected e) u
         = (handlerSettled Resolved u) \<lparr> console := console u @ [BatchFailed (batchId batch) e] \<rparr>
     \<and> (path \<noteq> ''__proto__'' \<longrightarrow>
          (\<exists>next. handed (flush dateNow newId (addFile path content (handlerSettled (Rejected e) u)))
                  = handed u @ [next]
           \<and> map_of (batchFiles next) path = Some content
           \<and> batchCommands next = pendingCommands u))
     \<and> (\<exists>next. handed (timerFires (nextTimer u) dateNow newId
                           (addPendingCommand cmd (handlerSettled (Rejected e) u)))
                  = handed u @ [next]
           \<and> batchCommands next = pendingCommands u @ [cmd]
           \<and> batchFiles next = pendingFiles u)"
proof -
  define u' where "u' = handlerSettled (Rejected e) u"
  from assms have f: "console u' = console u @ [BatchFailed (batchId batch) e]"
    "pendingFiles u' = pendingFiles u" "pendingCommands u' = pendingCommands u"
    "handed u' = handed u" "\<not> isProcessingBatch u'" "nextTimer u' = nextTimer u"
    by (simp_all add: u'_def handlerSettled_def)
  have a: "handed (flush dateNow newId (addFile path content u'))
      = handed u @ [\<lparr> batchFiles = setProperty (pendingFiles u) path content,
                       batchCommands = pendingCommands u, batchTimestamp = dateNow,
                       batchId = newId \<rparr>]"
    if "path \<noteq> ''__proto__''"
    using f that
    by (simp add: flush_def addFile_def processBatch_def scheduleUpdate_fields clearTimeout_def
          setProperty_not_empty Let_def)
  have b: "handed (timerFires (nextTimer u) dateNow newId (addPendingCommand cmd u'))
      = handed u @ [\<lparr> batchFiles = pendingFiles u,
                       batchCommands = pendingCommands u @ [cmd], batchTimestamp = dateNow,
                       batchId = newId \<rparr>]"
    using f scheduleUpdate_fields(6) [of "u' \<lparr> pendingCommands := pendingCommands u' @ [cmd] \<rparr>"]
    by (simp add: timerFires_def addPendingCommand_def processBatch_def scheduleUpdate_fields Let_def)
  from assms have c: "u' = (handlerSettled Resolved u)
      \<lparr> console := console u @ [BatchFailed (batchId batch) e] \<rparr>"
    by (simp add: u'_def handlerSettled_def)
  from f a b have "console u' = console u @ [BatchFailed (batchId batch) e]
     \<and> pendingFiles u' = pendingFiles u
     \<and> pendingCommands u' = pendingCommands u
     \<and> handed u' = handed u
     \<and> \<not> isProcessingBatch u'
     \<and> (path \<noteq> ''__proto__'' \<longrightarrow>
          (\<exists>next. handed (flush dateNow newId (addFile path content u')) = handed u @ [next]
           \<and> map_of (batchFiles next) path = Some content
           \<and> batchCommands next = pendingCommands u))
     \<and> (\<exists>next. handed (timerFires (nextTimer u) dateNow newId (addPendingCommand cmd u'))
                  = handed u @ [next]
           \<and> batchCommands next = pendingCommands u @ [cmd]
           \<and> batchFiles next = pendingFiles u)"
    by (simp add: setProperty_lookup)
  with c show ?thesis unfolding u'_def by blast
qed


abbreviation (input) firstBatch :: UpdateBatch where
  "firstBatch \<equiv> \<lparr> batchFiles = [(''/a.js'', ''x'')], batchCommands = [],
                   batchTimestamp = 1, batchId = ''b1'' \<rparr>"

abbreviation (input) updaterAwaiting :: DebouncedUpdater where
  "updaterAwaiting \<equiv> flush 1 ''b1'' (addFile ''/a.js'' ''x'' debouncedUpdater)"

theorem handler_failure_does_not_block_witness:
  "awaiting updaterAwaiting = Some firstBatch \<and> ''/b.js'' \<noteq> ''__proto__''
   \<and> console (handlerSettled (Rejected ''boom'') updaterAwaiting) = [BatchFailed ''b1'' ''boom'']
   \<and> pendingFiles (handlerSettled (Rejected ''boom'') updaterAwaiting) = []
   \<and> pendingCommands (handlerSettled (Rejected ''boom'') updaterAwaiting) = []
   \<and> handed (flush 2 ''b2'' (addFile ''/b.js'' ''y'' (handlerSettled (Rejected ''boom'') updaterAwaiting)))
       = [firstBatch,
          \<lparr> batchFiles = [(''/b.js'', ''y'')], batchCommands = [], batchTimestamp = 2,
            batchId = ''b2'' \<rparr>]"
proof -
  have a: "awaiting updaterAwaiting = Some firstBatch" by code_simp
  have b: "console updaterAwaiting = []" "pendingFiles updaterAwaiting = []"
    "pendingCommands updaterAwaiting = []" by code_simp+
  have c: "handed (flush 2 ''b2'' (addFile ''/b.js'' ''y'' (handlerSettled (Rejected ''boom'') updaterAwaiting)))
       = [firstBatch,
          \<lparr> batchFiles = [(''/b.js'', ''y'')], batchCommands = [], batchTimestamp = 2,
            batchId = ''b2'' \<rparr>]"
    by code_simp
  note t = handler_failure_does_not_block [OF a, where e = "''boom''" and path = "''/b.js''"]
  from t [THEN conjunct1] b
  have d: "console (handlerSettled (Rejected ''boom'') updaterAwaiting) = [BatchFailed ''b1'' ''boom'']"
    by simp
  from t [THEN conjunct2, THEN conjunct1] b
  have e: "pendingFiles (handlerSettled (Rejected ''boom'') updaterAwaiting) = []" by simp
  from t [THEN conjunct2, THEN conjunct2, THEN conjunct1] b
  have f: "pendingCommands (handlerSettled (Rejected ''boom'') updaterAwaiting) = []" by simp
  from a c d e f show ?thesis by simp
qed

section \<open>Block classifier (\<open>src/lib/enhanced-message-parser.ts\<close>)\<close>

subsection \<open>More of the string and pattern library\<close>

abbreviation starLazy :: "bool \<Rightarrow> (char \<Rightarrow> bool) \<Rightarrow> regex" where
  "starLazy neg p \<equiv> Rep False 0 None neg p"

abbreviation plusLazy :: "bool \<Rightarrow> (char \<Rightarrow> bool) \<Rightarrow> regex" where
  "plusLazy neg p \<equiv> Rep False 1 None neg p"

definition anyChar :: "char \<Rightarrow> bool" where
  "anyChar c = True"

definition wordsOf :: "string list \<Rightarrow> regex" where
  "wordsOf ws = alts (map Lit ws)"

definition caseFlag :: flags where
  "caseFlag = \<lparr> ignoreCase = True, multiline = False \<rparr>"

definition stringIncludes :: "string \<Rightarrow> string \<Rightarrow> bool" where
  "stringIncludes s pat = (indexOf s pat 0 \<noteq> None)"

definition toLowerCase :: "string \<Rightarrow> string" where
  "toLowerCase s = map toLowerAscii s"

text \<open>\<open>s.replace(re, '')\<close> for a pattern without the \<open>g\<close> flag: the first match is cut
  out.\<close>

definition removeFirst :: "flags \<Rightarrow> regex \<Rightarrow> string \<Rightarrow> string" where
  "removeFirst fl r s =
     (case search fl r None s of
        None \<Rightarrow> s
      | Some (i, m) \<Rightarrow> take i s @ restText m)"

text \<open>
  \<open>s.split(re)\<close> for a pattern without capture groups: \<open>piece\<close> is the current piece, in
  reverse. A match that is empty does not split (the source's patterns have none).
\<close>

function splitAux :: "flags \<Rightarrow> regex \<Rightarrow> string \<Rightarrow> char option \<Rightarrow> string \<Rightarrow> string list" where
  "splitAux fl r piece prior [] = [rev piece]"
| "splitAux fl r piece prior (c # s) =
     (case execAt fl r prior (c # s) of
        None \<Rightarrow> splitAux fl r (c # piece) (Some c) s
      | Some m \<Rightarrow>
          if length (restText m) \<le> length s
          then rev piece # splitAux fl r [] (lastChar prior (matchedText m)) (restText m)
          else splitAux fl r (c # piece) (Some c) s)"
  by pat_completeness auto
termination
  by (relation "measure (\<lambda>(fl, r, piece, prior, s). length s)") auto

definition splitRegex :: "flags \<Rightarrow> regex \<Rightarrow> string \<Rightarrow> string list" where
  "splitRegex fl r s = splitAux fl r [] None s"

subsection \<open>Shell command or file content\<close>

definition pathChar :: "char \<Rightarrow> bool" where
  "pathChar c = (c = CHR ''/'' \<or> isWordChar c \<or> c = CHR ''-'' \<or> c = CHR ''.'')"

definition nameChar :: "char \<Rightarrow> bool" where
  "nameChar c = (c \<in> set lowerChars \<or> isDigit c \<or> c = CHR ''-'' \<or> c = CHR ''_'')"

definition namePathChar :: "char \<Rightarrow> bool" where
  "namePathChar c = (nameChar c \<or> c = CHR ''.'' \<or> c = CHR ''/'')"

definition commandPatterns :: "(string \<times> regex) list" where
  "commandPatterns =
     [(''npm'', seqs [Bol, Grp 1 (wordsOf [''npm'', ''yarn'', ''pnpm'']), plus False isWhiteSpace,
         Grp 2 (wordsOf [''install'', ''run'', ''start'', ''build'', ''dev'', ''test'', ''init'',
                         ''create'', ''add'', ''remove''])]),
      (''git'', seqs [Bol, Grp 1 (Lit ''git''), plus False isWhiteSpace,
         Grp 2 (wordsOf [''add'', ''commit'', ''push'', ''pull'', ''clone'', ''status'',
                         ''checkout'', ''branch'', ''merge'', ''rebase'', ''init'', ''remote'',
                         ''fetch'', ''log''])]),
      (''docker'', seqs [Bol, Grp 1 (wordsOf [''docker'', ''docker-compose'']),
         plus False isWhiteSpace]),
      (''build'', seqs [Bol, Grp 1 (wordsOf [''make'', ''cmake'', ''gradle'', ''mvn'', ''cargo'', ''go'']),
         plus False isWhiteSpace]),
      (''network'', seqs [Bol, Grp 1 (wordsOf [''curl'', ''wget'', ''ping'', ''ssh'', ''scp'', ''rsync'']),
         plus False isWhiteSpace]),
      (''webcontainer'', seqs [Bol, Grp 1 (wordsOf [''cat'', ''chmod'', ''cp'', ''echo'', ''hostname'',
           ''kill'', ''ln'', ''ls'', ''mkdir'', ''mv'', ''ps'', ''pwd'', ''rm'', ''rmdir'', ''xxd'']),
         star False isWhiteSpace]),
      (''interpreters'', seqs [Bol, Grp 1 (wordsOf [''node'', ''python'', ''python3'', ''java'', ''go'',
           ''rust'', ''ruby'', ''php'', ''perl'']),
         plus False isWhiteSpace]),
      (''text-processing'', seqs [Bol, Grp 1 (wordsOf [''grep'', ''sed'', ''awk'', ''cut'', ''tr'',
           ''sort'', ''uniq'', ''wc'', ''diff'']),
         plus False isWhiteSpace]),
      (''archive'', seqs [Bol, Grp 1 (wordsOf [''tar'', ''zip'', ''unzip'', ''gzip'', ''gunzip'']),
         plus False isWhiteSpace]),
      (''process'', seqs [Bol, Grp 1 (wordsOf [''ps'', ''top'', ''htop'', ''kill'', ''killall'', ''jobs'',
           ''nohup'']),
         star False isWhiteSpace]),
      (''system'', seqs [Bol, Grp 1 (wordsOf [''df'', ''du'', ''free'', ''uname'', ''whoami'', ''id'',
           ''groups'', ''date'', ''uptime'']),
         star False isWhiteSpace])]"

definition scriptIndicators :: "regex list" where
  "scriptIndicators =
     [seqs [Bol, Lit ''#!''],
      seqs [Lit ''function'', plus False isWhiteSpace, plus False isWordChar],
      seqs [Bol, plus False isWordChar, star False isWhiteSpace, Lit ''('', star False isWhiteSpace,
            Lit '')'', star False isWhiteSpace, Lit ''{''],
      seqs [Bol, Grp 1 (wordsOf [''if'', ''for'', ''while'', ''case'']), plus False isWhiteSpace,
            starLazy True isLineTerminator, Grp 2 (wordsOf [''then'', ''do'', ''in''])],
      seqs [Bol, plus False isWordChar, Lit ''='', Cls True (oneOf ''=''),
            star True isLineTerminator, Eol],
      seqs [Bol, Grp 1 (wordsOf [''local'', ''declare'', ''readonly'']), plus False isWhiteSpace],
      seqs [Bol, Grp 1 (wordsOf [''source'', ''.'']), plus False isWhiteSpace],
      seqs [Bol, Grp 1 (wordsOf [''exit'', ''return'']), plus False isWhiteSpace, plus False isDigit]]"

definition looksLikeScriptContent :: "string \<Rightarrow> bool" where
  "looksLikeScriptContent content =
     list_ex
       (\<lambda>line. let trimmedLine = trim line
               in \<not> (trimmedLine = [] \<or> startsWith trimmedLine ''#'')
                  \<and> list_ex (\<lambda>pattern. test noFlags pattern trimmedLine) scriptIndicators)
       (splitOn NL (trim content))"

definition firstWord :: "string \<Rightarrow> string" where
  "firstWord line = hd (splitRegex noFlags (plus False isWhiteSpace) line)"

definition commandLikePatterns :: "regex list" where
  "commandLikePatterns =
     [seqs [Bol, Cls False (oneOf lowerChars), star False nameChar, Eol],
      seqs [Bol, Lit ''./'', plus False namePathChar, Eol],
      seqs [Bol, Lit ''/'', plus False namePathChar, Eol],
      seqs [Bol, Cls False (oneOf lowerChars), star False nameChar, plus False isWhiteSpace,
            Lit ''-'', plus True isLineTerminator]]"

definition isSimpleCommand :: "string \<Rightarrow> bool" where
  "isSimpleCommand line =
     (if stringIncludes line ''='' \<and> \<not> startsWith line ''export '' \<and> \<not> startsWith line ''env ''
           \<and> \<not> stringIncludes (firstWord line) ''=''
      then False
      else if stringIncludes line ''function ''
           \<or> test noFlags (seqs [Bol, plus False isWordChar, star False isWhiteSpace, Lit ''('',
                                  star False isWhiteSpace, Lit '')'']) line
      then False
      else if test noFlags (seqs [Bol, Grp 1 (wordsOf [''if'', ''for'', ''while'', ''case'',
                                     ''function'', ''until'', ''select'']),
                                  Cls False isWhiteSpace]) line
      then False
      else list_ex (\<lambda>pattern. test caseFlag pattern (firstWord line)) commandLikePatterns)"

definition chaining :: regex where
  "chaining = Rep True 1 (Some 2) False (oneOf '';&|'')"

definition prefixPatterns :: "regex list" where
  "prefixPatterns =
     [seqs [Bol, Lit ''sudo'', plus False isWhiteSpace],
      seqs [Bol, Lit ''time'', plus False isWhiteSpace],
      seqs [Bol, Lit ''nohup'', plus False isWhiteSpace],
      seqs [Bol, Lit ''watch'', plus False isWhiteSpace],
      seqs [Bol, Lit ''env'', plus False isWhiteSpace, plus False isWordChar, Lit ''='',
            plus False isWordChar, plus False isWhiteSpace]]"

definition isSingleLineCommand :: "string \<Rightarrow> bool" where
  "isSingleLineCommand line =
     (if test noFlags chaining line
      then list_all (\<lambda>part. part \<noteq> [] \<and> \<not> looksLikeScriptContent part)
             (map trim (splitRegex noFlags chaining line))
      else
        (let cleanLine = foldl (\<lambda>l prefix. removeFirst noFlags prefix l) line prefixPatterns
         in if list_ex (\<lambda>(name, pattern). test noFlags pattern cleanLine) commandPatterns
            then True
            else isSimpleCommand cleanLine))"

definition commandLike :: "string \<Rightarrow> bool" where
  "commandLike line =
     (line \<noteq> [] \<and> \<not> startsWith line ''#'' \<and> (isSingleLineCommand line \<or> isSimpleCommand line))"

text \<open>
  \<open>isCommandSequence\<close> compares \<open>commandLikeLines.length / lines.length\<close> with \<open>0.7\<close> in
  double precision. For lengths below \<open>2^32\<close> (the bound of an array) the quotient is more
  than one rounding step away from \<open>0.7\<close> unless it is exactly seven tenths, where both
  sides round to the same double; so the comparison is that of the integers below.
\<close>

definition isCommandSequence :: "string list \<Rightarrow> bool" where
  "isCommandSequence lines = (7 * length lines < 10 * length (filter commandLike lines))"

definition shellLanguages :: "string list" where
  "shellLanguages = [''bash'', ''sh'', ''shell'', ''zsh'', ''fish'', ''powershell'', ''ps1'']"

definition isShellLang :: "string \<Rightarrow> bool" where
  "isShellLang language = (toLowerCase language \<in> set shellLanguages)"

definition shellLines :: "string \<Rightarrow> string list" where
  "shellLines content = filter (\<lambda>line. line \<noteq> []) (map trim (splitOn NL (trim content)))"

definition isShellCommand :: "string \<Rightarrow> string \<Rightarrow> bool" where
  "isShellCommand content language =
     (if \<not> isShellLang language then False
      else if length (shellLines content) = 0 then False
      else if looksLikeScriptContent (trim content) then False
      else if length (shellLines content) = 1 then isSingleLineCommand (shellLines content ! 0)
      else isCommandSequence (shellLines content))"

text \<open>
  C7 (as amended). For a block whose language is a shell dialect, whose content does not
  look like a script and has more than one non-empty line, \<open>isShellCommand\<close> answers that
  it is a command sequence if and only if more than seven tenths of the non-empty lines
  are command-like: lines that do not start with \<open>#\<close> and pass the single-line command
  test or the simple-command test.
\<close>

theorem isShellCommand_sequence_threshold:
  assumes "isShellLang language"
    and "\<not> looksLikeScriptContent (trim content)"
    and "1 < length (shellLines content)"
  shows "isShellCommand content language
     = (7 * length (shellLines content) < 10 * length (filter commandLike (shellLines content)))"
  using assms by (simp add: isShellCommand_def isCommandSequence_def)

abbreviation (input) installScript :: string where
  "installScript \<equiv> ''npm install'' @ [NL] @ ''# start the server'' @ [NL] @ ''npm run dev''
     @ [NL] @ ''ls -la''"

theorem isShellCommand_sequence_threshold_witness:
  "isShellLang ''bash'' \<and> \<not> looksLikeScriptContent (trim installScript)
   \<and> 1 < length (shellLines installScript)
   \<and> shellLines installScript = [''npm install'', ''# start the server'', ''npm run dev'', ''ls -la'']
   \<and> filter commandLike (shellLines installScript) = [''npm install'', ''npm run dev'', ''ls -la'']
   \<and> isShellCommand installScript ''bash''"
proof -
  have a: "isShellLang ''bash''" by code_simp
  have b: "\<not> looksLikeScriptContent (trim installScript)" by code_simp
  have c: "shellLines installScript
      = [''npm install'', ''# start the server'', ''npm run dev'', ''ls -la'']" by code_simp
  have d: "filter commandLike [''npm install'', ''# start the server'', ''npm run dev'', ''ls -la'']
      = [''npm install'', ''npm run dev'', ''ls -la'']" by code_simp
  from c have e: "1 < length (shellLines installScript)" by simp
  from isShellCommand_sequence_threshold [OF a b e] a b c d e show ?thesis by simp
qed

abbreviation (input) semicolonScript :: string where
  "semicolonScript \<equiv> ''cd app;'' @ [NL] @ ''ls -la;''"

text \<open>
  C7 as stated fails: the two lines \<open>cd app;\<close> and \<open>ls -la;\<close> both fail the single-line
  command test (the part after the semicolon is empty), so none of the lines satisfies
  it, yet the block is classified as a command sequence, because both lines pass the
  simple-command test.
\<close>

theorem isShellCommand_not_single_line_test:
  "isShellLang ''bash'' \<and> \<not> looksLikeScriptContent (trim semicolonScript)
   \<and> shellLines semicolonScript = [''cd app;'', ''ls -la;'']
   \<and> filter isSingleLineCommand (shellLines semicolonScript) = []
   \<and> isShellCommand semicolonScript ''bash''
   \<and> isShellCommand semicolonScript ''bash''
       \<noteq> (7 * length (shellLines semicolonScript)
            < 10 * length (filter isSingleLineCommand (shellLines semicolonScript)))"
proof -
  have a: "isShellLang ''bash''" by code_simp
  have b: "\<not> looksLikeScriptContent (trim semicolonScript)" by code_simp
  have c: "shellLines semicolonScript = [''cd app;'', ''ls -la;'']" by code_simp
  have d: "filter isSingleLineCommand [''cd app;'', ''ls -la;''] = []" by code_simp
  have e: "isShellCommand semicolonScript ''bash''" by code_simp
  from a b c d e show ?thesis by simp
qed

subsection \<open>File paths\<close>

definition isValidFilePath :: "string \<Rightarrow> bool" where
  "isValidFilePath filePath =
     (if filePath = [] then False
      else if \<not> test noFlags (seqs [Lit ''.'', plus False isWordChar, Eol]) filePath then False
      else if \<not> test noFlags (seqs [Bol, plus False pathChar, Eol]) filePath then False
      else \<not> list_ex (\<lambda>pattern. test caseFlag pattern filePath)
             [seqs [Bol, Opt (Lit ''/''), Grp 1 (wordsOf [''tmp'', ''temp'', ''test'', ''example'']),
                    Lit ''/''],
              seqs [Lit ''.'', Grp 1 (wordsOf [''tmp'', ''temp'', ''bak'', ''backup'', ''old'', ''orig'']),
                    Eol],
              seqs [Bol, Opt (Lit ''/''), Grp 1 (wordsOf [''output'', ''result'', ''response'']),
                    Lit ''/''],
              seqs [Bol, Lit ''code_'', plus False isDigit, Lit ''.'',
                    Grp 1 (wordsOf [''sh'', ''bash'', ''zsh'']), Eol],
              seqs [Bol, Grp 1 (wordsOf [''untitled'', ''new'', ''demo'', ''sample'']),
                    star False isDigit, Lit ''.'']])"

definition quoteChar :: "char \<Rightarrow> bool" where
  "quoteChar c = (c = CHR 0x60 \<or> c = CHR 0x27 \<or> c = CHR 0x22)"

definition normalizeFilePath :: "string \<Rightarrow> string" where
  "normalizeFilePath filePath =
     (let p1 = trim (filter (\<lambda>c. \<not> quoteChar c) filePath);
          p2 = map (\<lambda>c. if c = CHR 0x5C then CHR ''/'' else c) p1;
          p3 = (if startsWith p2 ''./'' then substring p2 2 (length p2) else p2)
      in if \<not> startsWith p3 ''/'' \<and> \<not> startsWith p3 ''.'' then ''/'' @ p3 else p3)"

definition inferFileNameFromContent :: "nat \<Rightarrow> string \<Rightarrow> string \<Rightarrow> string" where
  \<open>inferFileNameFromContent dateNow content language =
     (case search noFlags
             (seqs [alts [Lit ''function'', Lit ''class'', Lit ''const'',
                          seqs [Lit ''export'', plus False isWhiteSpace, Lit ''default'',
                                plus False isWhiteSpace, Lit ''function''],
                          seqs [Lit ''export'', plus False isWhiteSpace, Lit ''function'']],
                    plus False isWhiteSpace, Grp 1 (plus False isWordChar)])
             None content of
        Some (i, componentMatch) \<Rightarrow>
          ''/components/'' @ groupText componentMatch 1
            @ (if language = ''jsx'' then ''.jsx'' else if language = ''tsx'' then ''.tsx'' else ''.js'')
      | None \<Rightarrow>
          if stringIncludes content ''function App'' \<or> stringIncludes content ''const App''
          then ''/App.jsx''
          else if language = ''json'' \<and> stringIncludes content ''"name"'' then ''/package.json''
          else if language = ''html'' \<and> stringIncludes content ''<html'' then ''/index.html''
          else if language = ''css'' \<and> stringIncludes content ''{'' then ''/styles.css''
          else ''/component-'' @ showNat dateNow @ ''.jsx'')\<close>

subsection \<open>Detecting blocks\<close>

datatype BlockType = FilePathBlock | ExplicitCreate | CommentFilename | InFilename | StructuredFile

record Block =
  blockMatch :: string
  blockType :: BlockType
  blockFilePath :: string
  blockLanguage :: string
  blockContent :: string

definition fencedBlock :: "regex list" where
  "fencedBlock = [Lit ''```'', Grp 2 (star False isWordChar), Lit [NL],
                  Grp 3 (starLazy False anyChar), Lit ''```'']"

definition fileName :: regex where
  "fileName = seqs [plus False pathChar, Lit ''.'', plus False isWordChar]"

definition optionalWord :: "string \<Rightarrow> regex" where
  "optionalWord w = Opt (seqs [Lit w, plus False isWhiteSpace])"

definition codeBlockPatterns :: "(regex \<times> flags \<times> BlockType) list" where
  \<open>codeBlockPatterns =
     [(seqs ([Alt Bol (Lit [NL]), Grp 1 fileName, Opt (Lit '':''), star False isWhiteSpace,
              plus False (oneOf [NL])] @ fencedBlock),
       \<lparr> ignoreCase = True, multiline = True \<rparr>, FilePathBlock),
      (seqs ([alts [Lit ''create'', Lit ''update'', Lit ''modify'', Lit ''edit'', Lit ''write'',
                    Lit ''add'', Lit ''generate'',
                    seqs [Lit ''here'', Opt (Lit [CHR 0x27]), Opt (Lit ''s'')],
                    seqs [Lit ''file'', Opt (Lit '':'')]],
              plus False isWhiteSpace, optionalWord ''a'', optionalWord ''new'',
              optionalWord ''file'', optionalWord ''called'', star False quoteChar,
              Grp 1 fileName, star False quoteChar, Opt (Lit '':''), star False isWhiteSpace,
              plus False (oneOf [NL])] @ fencedBlock),
       caseFlag, ExplicitCreate),
      (seqs [Lit ''```'', Grp 1 (star False isWordChar), Lit [NL],
             alts [Lit ''//'', Lit ''#'', Lit ''<!--''], star False isWhiteSpace,
             alts [seqs [Lit ''file'', Opt (Lit '':'')], seqs [Lit ''filename'', Opt (Lit '':'')]],
             star False isWhiteSpace, Grp 2 fileName, starLazy True isLineTerminator, Lit [NL],
             Grp 3 (starLazy False anyChar), Lit ''```''],
       caseFlag, CommentFilename),
      (seqs ([alts [Lit ''in'', Lit ''for'', Lit ''update''], plus False isWhiteSpace,
              star False quoteChar, Grp 1 fileName, star False quoteChar, Opt (Lit '':''),
              star False isWhiteSpace, plus False (oneOf [NL])] @ fencedBlock),
       caseFlag, InFilename),
      (seqs [Lit ''```'',
             alts [Lit ''json'', seqs [Lit ''js'', Opt (Lit ''x'')], seqs [Lit ''ts'', Opt (Lit ''x'')],
                   seqs [Lit ''htm'', Opt (Lit ''l'')], Lit ''vue'', Lit ''svelte''],
             Lit [NL],
             Grp 1 (Alt
               (seqs [Lit ''{'', starLazy False anyChar, Lit ''"'',
                      wordsOf [''name'', ''version'', ''scripts'', ''dependencies'',
                               ''devDependencies''],
                      Lit ''"'', starLazy False anyChar, Lit ''}''])
               (seqs [Lit ''<'', plus False isWordChar, star True (oneOf ''>''), Lit ''>'',
                      starLazy False anyChar, Lit ''</'', plus False isWordChar, Lit ''>'',
                      starLazy False anyChar])),
             Lit ''```''],
       caseFlag, StructuredFile)]\<close>

definition blockOfMatch :: "nat \<Rightarrow> BlockType \<Rightarrow> rmatch_result \<Rightarrow> Block" where
  "blockOfMatch dateNow ty m =
     (case ty of
        CommentFilename \<Rightarrow>
          \<lparr> blockMatch = matchedText m, blockType = ty,
            blockFilePath = normalizeFilePath (groupText m 2),
            blockLanguage = groupText m 1, blockContent = groupText m 3 \<rparr>
      | StructuredFile \<Rightarrow>
          \<lparr> blockMatch = matchedText m, blockType = ty,
            blockFilePath = normalizeFilePath
              (inferFileNameFromContent dateNow (groupText m 1) ''json''),
            blockLanguage = ''json'', blockContent = groupText m 1 \<rparr>
      | _ \<Rightarrow>
          \<lparr> blockMatch = matchedText m, blockType = ty,
            blockFilePath = normalizeFilePath (groupText m 1),
            blockLanguage = groupText m 2, blockContent = groupText m 3 \<rparr>)"

definition detectCodeBlocks :: "nat \<Rightarrow> string \<Rightarrow> Block list" where
  "detectCodeBlocks dateNow input =
     concat (map (\<lambda>(r, fl, ty). map (blockOfMatch dateNow ty) (execAll fl r None input))
               codeBlockPatterns)"

record FileOperation =
  operationMatch :: string
  operationFilePath :: string
  operationContent :: string

definition fileOperationPattern :: regex where
  "fileOperationPattern =
     seqs [wordsOf [''create'', ''write'', ''save'', ''generate''], plus False isWhiteSpace,
           optionalWord ''a'', optionalWord ''new'', Lit ''file'', plus False isWhiteSpace,
           optionalWord ''at'', star False quoteChar, Grp 1 fileName, star False quoteChar,
           plus False isWhiteSpace, Lit ''with'', plus False isWhiteSpace,
           optionalWord ''the'', optionalWord ''following'', Lit ''content'', Opt (Lit '':''),
           star False isWhiteSpace, Lit [NL], Grp 2 (plusLazy False anyChar),
           Ahead (alts [Lit [NL, NL],
                        seqs [Lit [NL], wordsOf [''create'', ''write'', ''save'', ''generate'',
                                                  ''now'', ''next'', ''then'', ''finally'']],
                        Eol])]"

definition detectFileOperations :: "string \<Rightarrow> FileOperation list" where
  "detectFileOperations input =
     map (\<lambda>m. \<lparr> operationMatch = matchedText m,
                 operationFilePath = normalizeFilePath (groupText m 1),
                 operationContent = trim (groupText m 2) \<rparr>)
       (execAll caseFlag fileOperationPattern None input)"

subsection \<open>Classifying and removing duplicates\<close>

datatype ContentType = FileContent | CommandContent | TextContent

record ParsedContent =
  contentType :: ContentType
  parsedText :: string
  parsedFilePath :: "string option"
  parsedLanguage :: "string option"
  artifactId :: "string option"

record EnhancedMessageParser =
  processedBlocks :: "string \<rightharpoonup> string list"
  artifactCounter :: nat

definition newEnhancedMessageParser :: EnhancedMessageParser where
  "newEnhancedMessageParser = \<lparr> processedBlocks = Map.empty, artifactCounter = 0 \<rparr>"

definition classifyBlock ::
  "Block \<Rightarrow> string \<Rightarrow> nat \<Rightarrow> ParsedContent option \<times> nat" where
  "classifyBlock block messageId counter =
     (if isShellCommand (blockContent block) (blockLanguage block) then
        (Some \<lparr> contentType = CommandContent, parsedText = trim (blockContent block),
                parsedFilePath = None, parsedLanguage = None,
                artifactId = Some (''command-'' @ messageId @ ''-'' @ showNat counter) \<rparr>,
         counter + 1)
      else if isValidFilePath (blockFilePath block) then
        (Some \<lparr> contentType = FileContent, parsedText = blockContent block,
                parsedFilePath = Some (blockFilePath block),
                parsedLanguage = Some (blockLanguage block),
                artifactId = Some (''file-'' @ messageId @ ''-'' @ showNat counter) \<rparr>,
         counter + 1)
      else (None, counter))"

definition parseFileOperation ::
  "FileOperation \<Rightarrow> string \<Rightarrow> nat \<Rightarrow> ParsedContent option \<times> nat" where
  "parseFileOperation operation messageId counter =
     (if isValidFilePath (operationFilePath operation) then
        (Some \<lparr> contentType = FileContent, parsedText = operationContent operation,
                parsedFilePath = Some (operationFilePath operation), parsedLanguage = None,
                artifactId = Some (''file-'' @ messageId @ ''-'' @ showNat counter) \<rparr>,
         counter + 1)
      else (None, counter))"

text \<open>
  \<open>hashBlock\<close>: \<open>hash << 5\<close> and \<open>hash & hash\<close> work on 32-bit signed integers (\<open>toInt32\<close>);
  the subtraction and the addition between them are exact. \<open>toString36\<close> is
  \<open>Number.prototype.toString(36)\<close> on an integer.
\<close>

definition toInt32 :: "int \<Rightarrow> int" where
  "toInt32 x = (x + 2147483648) mod 4294967296 - 2147483648"

definition digits36 :: string where
  "digits36 = ''0123456789abcdefghijklmnopqrstuvwxyz''"

function showInt36 :: "int \<Rightarrow> string" where
  "showInt36 n =
     (if n < 36 then [digits36 ! nat n] else showInt36 (n div 36) @ [digits36 ! nat (n mod 36)])"
  by pat_completeness auto
termination
  by (relation "measure nat") auto

declare showInt36.simps [simp del]

definition toString36 :: "int \<Rightarrow> string" where
  "toString36 x = (if x < 0 then ''-'' @ showInt36 (- x) else showInt36 x)"

definition hashBlock :: "string \<Rightarrow> string" where
  "hashBlock content =
     toString36 (foldl (\<lambda>hash c. toInt32 (toInt32 (hash * 32) - hash + int (of_char c))) 0 content)"

text \<open>
  The two loops of \<open>parse\<close> have the same shape: skip an item whose hash is in the set of
  the message, otherwise add the hash and keep what the classification returns. The loop
  state is the set \<open>processed\<close>, the counter of artifacts and the results so far; each
  result is kept with the matched text it comes from, which \<open>parse\<close> drops at the end.
\<close>

type_synonym loopState = "string list \<times> nat \<times> (string \<times> ParsedContent) list"

definition dedupStep ::
  "('b \<Rightarrow> string) \<Rightarrow> ('b \<Rightarrow> nat \<Rightarrow> ParsedContent option \<times> nat) \<Rightarrow> loopState \<Rightarrow> 'b
     \<Rightarrow> loopState" where
  "dedupStep matchOf classify st item =
     (case st of (processed, counter, results) \<Rightarrow>
        (let blockHash = hashBlock (matchOf item)
         in if blockHash \<in> set processed then (processed, counter, results)
            else
              (case classify item counter of
                 (Some parsed, counter') \<Rightarrow>
                   (processed @ [blockHash], counter', results @ [(matchOf item, parsed)])
               | (None, counter') \<Rightarrow> (processed @ [blockHash], counter', results))))"

definition parseTraced ::
  "string \<Rightarrow> string \<Rightarrow> nat \<Rightarrow> EnhancedMessageParser
     \<Rightarrow> (string \<times> ParsedContent) list \<times> EnhancedMessageParser" where
  "parseTraced messageId input dateNow p =
     (let processed = (case processedBlocks p messageId of None \<Rightarrow> [] | Some hs \<Rightarrow> hs);
          st1 = foldl (dedupStep blockMatch (\<lambda>block. classifyBlock block messageId))
                  (processed, artifactCounter p, []) (detectCodeBlocks dateNow input);
          st2 = foldl (dedupStep operationMatch (\<lambda>operation. parseFileOperation operation messageId))
                  st1 (detectFileOperations input)
      in (snd (snd st2),
          p \<lparr> processedBlocks := (processedBlocks p)(messageId \<mapsto> fst st2),
              artifactCounter := fst (snd st2) \<rparr>))"

definition parseMessage ::
  "string \<Rightarrow> string \<Rightarrow> nat \<Rightarrow> EnhancedMessageParser
     \<Rightarrow> ParsedContent list \<times> EnhancedMessageParser" where
  "parseMessage messageId input dateNow p =
     (map snd (fst (parseTraced messageId input dateNow p)), snd (parseTraced messageId input dateNow p))"

definition reset :: "EnhancedMessageParser \<Rightarrow> EnhancedMessageParser" where
  "reset p = newEnhancedMessageParser"

abbreviation (input) firstText :: string where
  "firstText \<equiv> ''app.js'' @ [NL] @ ''```js'' @ [NL] @ ''let x'' @ [NL] @ ''```''"

abbreviation (input) secondText :: string where
  "secondText \<equiv> firstText @ [NL] @ ''```bash'' @ [NL] @ ''// file: run.sh'' @ [NL] @ ''npm install'' @ [NL] @ ''```''"

subsection \<open>No block is returned twice\<close>

lemma dedupStep_cases:
  "dedupStep matchOf classify (processed, counter, results) item = (processed, counter, results)
     \<and> hashBlock (matchOf item) \<in> set processed
   \<or> hashBlock (matchOf item) \<notin> set processed
     \<and> (\<exists>counter' new. dedupStep matchOf classify (processed, counter, results) item
            = (processed @ [hashBlock (matchOf item)], counter', results @ new)
          \<and> fst ` set new \<subseteq> {matchOf item})"
proof (cases "hashBlock (matchOf item) \<in> set processed")
  case True
  then show ?thesis by (simp add: dedupStep_def)
next
  case False
  obtain r c where rc: "classify item counter = (r, c)" by (cases "classify item counter")
  show ?thesis
  proof (cases r)
    case None
    with False rc have "dedupStep matchOf classify (processed, counter, results) item
            = (processed @ [hashBlock (matchOf item)], c, results @ [])"
      by (simp add: dedupStep_def)
    with False show ?thesis by force
  next
    case (Some parsed)
    with False rc have "dedupStep matchOf classify (processed, counter, results) item
            = (processed @ [hashBlock (matchOf item)], c, results @ [(matchOf item, parsed)])"
      by (simp add: dedupStep_def)
    with False show ?thesis by force
  qed
qed

lemma foldl_dedupStep:
  "\<exists>processed' counter' new.
      foldl (dedupStep matchOf classify) (processed, counter, results) items
        = (processed', counter', results @ new)
    \<and> set processed \<subseteq> set processed'
    \<and> (\<forall>m \<in> fst ` set new. hashBlock m \<in> set processed' \<and> hashBlock m \<notin> set processed)"
proof (induction items arbitrary: processed counter results)
  case Nil
  show ?case by simp
next
  case (Cons item items)
  from dedupStep_cases [of matchOf classify processed counter results item]
  show ?case
  proof (elim disjE conjE exE)
    assume "dedupStep matchOf classify (processed, counter, results) item
        = (processed, counter, results)"
    with Cons.IH [of processed counter results] show ?thesis by simp
  next
    fix counter1 new1
    assume h: "hashBlock (matchOf item) \<notin> set processed"
      and s: "dedupStep matchOf classify (processed, counter, results) item
            = (processed @ [hashBlock (matchOf item)], counter1, results @ new1)"
      and n: "fst ` set new1 \<subseteq> {matchOf item}"
    from Cons.IH [of "processed @ [hashBlock (matchOf item)]" counter1 "results @ new1"]
    obtain processed' counter' new2 where
      f: "foldl (dedupStep matchOf classify)
            (processed @ [hashBlock (matchOf item)], counter1, results @ new1) items
          = (processed', counter', (results @ new1) @ new2)"
      and sub: "set (processed @ [hashBlock (matchOf item)]) \<subseteq> set processed'"
      and new: "\<forall>m \<in> fst ` set new2. hashBlock m \<in> set processed'
              \<and> hashBlock m \<notin> set (processed @ [hashBlock (matchOf item)])"
      by blast
    have "\<forall>m \<in> fst ` set (new1 @ new2). hashBlock m \<in> set processed' \<and> hashBlock m \<notin> set processed"
    proof
      fix m assume "m \<in> fst ` set (new1 @ new2)"
      then have "m \<in> fst ` set new1 \<or> m \<in> fst ` set new2" by auto
      then show "hashBlock m \<in> set processed' \<and> hashBlock m \<notin> set processed"
      proof
        assume "m \<in> fst ` set new1"
        with n have "m = matchOf item" by auto
        with h sub show ?thesis by auto
      next
        assume "m \<in> fst ` set new2"
        with new show ?thesis by auto
      qed
    qed
    moreover from sub have "set processed \<subseteq> set processed'" by auto
    moreover from s f have "foldl (dedupStep matchOf classify) (processed, counter, results) (item # items)
        = (processed', counter', results @ (new1 @ new2))" by simp
    ultimately show ?thesis by blast
  qed
qed

definition processedOf :: "EnhancedMessageParser \<Rightarrow> string \<Rightarrow> string list" where
  "processedOf p messageId = (case processedBlocks p messageId of None \<Rightarrow> [] | Some hs \<Rightarrow> hs)"

lemma parseTraced_hashes:
  "\<forall>m \<in> fst ` set (fst (parseTraced messageId input dateNow p)).
      hashBlock m \<in> set (processedOf (snd (parseTraced messageId input dateNow p)) messageId)
    \<and> hashBlock m \<notin> set (processedOf p messageId)"
proof -
  define classify1 where "classify1 = (\<lambda>block. classifyBlock block messageId)"
  define classify2 where "classify2 = (\<lambda>operation. parseFileOperation operation messageId)"
  from foldl_dedupStep [of blockMatch classify1 "processedOf p messageId" "artifactCounter p" "[]"
      "detectCodeBlocks dateNow input"]
  obtain p1 c1 new1 where
    f1: "foldl (dedupStep blockMatch classify1) (processedOf p messageId, artifactCounter p, [])
           (detectCodeBlocks dateNow input) = (p1, c1, new1)"
    and s1: "set (processedOf p messageId) \<subseteq> set p1"
    and n1: "\<forall>m \<in> fst ` set new1. hashBlock m \<in> set p1 \<and> hashBlock m \<notin> set (processedOf p messageId)"
    by auto
  from foldl_dedupStep [of operationMatch classify2 p1 c1 new1 "detectFileOperations input"]
  obtain p2 c2 new2 where
    f2: "foldl (dedupStep operationMatch classify2) (p1, c1, new1) (detectFileOperations input)
           = (p2, c2, new1 @ new2)"
    and s2: "set p1 \<subseteq> set p2"
    and n2: "\<forall>m \<in> fst ` set new2. hashBlock m \<in> set p2 \<and> hashBlock m \<notin> set p1"
    by auto
  from f1 f2 have res: "fst (parseTraced messageId input dateNow p) = new1 @ new2"
    "processedOf (snd (parseTraced messageId input dateNow p)) messageId = p2"
    by (simp_all add: parseTraced_def processedOf_def Let_def classify1_def classify2_def)
  from s1 s2 n1 n2 show ?thesis unfolding res by auto
qed

text \<open>
  C6. For two calls of \<open>parse\<close> in a row for the same message, with any two texts, no
  block returned by the second call has the matched text of a block returned by the first:
  the hash of every matched text returned is in the set of the message when the first call
  ends, and the second call skips every matched text whose hash is in that set.
\<close>

theorem parse_no_duplicate_blocks:
  "fst ` set (fst (parseTraced messageId input1 dateNow1 p))
     \<inter> fst ` set (fst (parseTraced messageId input2 dateNow2
                          (snd (parseTraced messageId input1 dateNow1 p)))) = {}"
  using parseTraced_hashes [of messageId input1 dateNow1 p]
    parseTraced_hashes [of messageId input2 dateNow2 "snd (parseTraced messageId input1 dateNow1 p)"]
  by blast

abbreviation (input) fileBlockText :: string where
  "fileBlockText \<equiv> ''a.js'' @ [NL] @ ''```'' @ [NL] @ ''x```''"

abbreviation (input) secondBlock :: string where
  "secondBlock \<equiv> [NL] @ ''b.sh'' @ [NL] @ ''```sh'' @ [NL] @ ''ls```''"

theorem parse_no_duplicate_blocks_witness:
  "map fst (fst (parseTraced ''m'' fileBlockText 0 newEnhancedMessageParser)) = [fileBlockText]
   \<and> map fst (fst (parseTraced ''m'' (fileBlockText @ secondBlock) 0
                      (snd (parseTraced ''m'' fileBlockText 0 newEnhancedMessageParser))))
       = [secondBlock]
   \<and> fst ` set (fst (parseTraced ''m'' fileBlockText 0 newEnhancedMessageParser))
     \<inter> fst ` set (fst (parseTraced ''m'' (fileBlockText @ secondBlock) 0
                          (snd (parseTraced ''m'' fileBlockText 0 newEnhancedMessageParser)))) = {}"
proof -
  have a: "map fst (fst (parseTraced ''m'' fileBlockText 0 newEnhancedMessageParser)) = [fileBlockText]"
    by code_simp
  have b: "map fst (fst (parseTraced ''m'' (fileBlockText @ secondBlock) 0
                      (snd (parseTraced ''m'' fileBlockText 0 newEnhancedMessageParser))))
       = [secondBlock]"
    by code_simp
  from parse_no_duplicate_blocks [of "''m''" fileBlockText 0 newEnhancedMessageParser
         "fileBlockText @ secondBlock" 0] a b
  show ?thesis by simp
qed

end
